theory Spec2Isabelle
  imports Complex_Main "HOL-Library.Log_Nat"
begin

section \<open>JavaScript values used by server.js\<close>

text \<open>
  A JavaScript number is an IEEE 754 double. It is modelled by \<open>jsnum\<close>: \<open>NaN\<close>, the two
  infinities, and the finite doubles as the rationals they denote. Every arithmetic
  operation computes the exact result and rounds it to the nearest double, ties to even
  (\<open>double_of\<close>), with overflow to infinity and gradual underflow. The sign of zero is
  not kept: the program never divides by a zero it computed, prints both zeros as \<open>0\<close>
  and treats both as falsy, so it cannot tell them apart. Strings are lists of
  characters, standing for UTF-16 code units below 256.
\<close>

datatype jsnum = NaN | Num rat | PosInf | NegInf

fun isFinite :: "jsnum \<Rightarrow> bool" where
  "isFinite (Num q) = True"
| "isFinite _ = False"

text \<open>Truthiness of a number (\<open>x || y\<close>, \<open>x ? a : b\<close>): \<open>NaN\<close> and zero are falsy.\<close>

fun truthy :: "jsnum \<Rightarrow> bool" where
  "truthy NaN = False"
| "truthy (Num q) = (q \<noteq> 0)"
| "truthy _ = True"

text \<open>\<open>a !== b\<close> on numbers: \<open>NaN\<close> differs from everything, itself included.\<close>

fun strict_neq :: "jsnum \<Rightarrow> jsnum \<Rightarrow> bool" where
  "strict_neq NaN _ = True"
| "strict_neq _ NaN = True"
| "strict_neq a b = (a \<noteq> b)"

text \<open>\<open>a > b\<close> on numbers: false as soon as one side is \<open>NaN\<close>.\<close>

fun js_gt :: "jsnum \<Rightarrow> jsnum \<Rightarrow> bool" where
  "js_gt NaN _ = False"
| "js_gt _ NaN = False"
| "js_gt (Num a) (Num b) = (a > b)"
| "js_gt PosInf b = (b \<noteq> PosInf)"
| "js_gt a NegInf = (a \<noteq> NegInf)"
| "js_gt _ _ = False"

text \<open>The order \<open>a <= b\<close> of the numbers other than \<open>NaN\<close>.\<close>

fun js_le :: "jsnum \<Rightarrow> jsnum \<Rightarrow> bool" where
  "js_le NaN _ = False"
| "js_le _ NaN = False"
| "js_le NegInf _ = True"
| "js_le _ PosInf = True"
| "js_le (Num a) (Num b) = (a \<le> b)"
| "js_le _ _ = False"

fun Math_max :: "jsnum \<Rightarrow> jsnum \<Rightarrow> jsnum" where
  "Math_max a b = (if a = NaN \<or> b = NaN then NaN else if js_gt b a then b else a)"

fun Math_min :: "jsnum \<Rightarrow> jsnum \<Rightarrow> jsnum" where
  "Math_min a b = (if a = NaN \<or> b = NaN then NaN else if js_gt a b then b else a)"

text \<open>The floor of a double is a double: no rounding is needed.\<close>

fun Math_floor :: "jsnum \<Rightarrow> jsnum" where
  "Math_floor (Num q) = Num (of_int \<lfloor>q\<rfloor>)"
| "Math_floor x = x"

fun js_neg :: "jsnum \<Rightarrow> jsnum" where
  "js_neg (Num q) = Num (- q)"
| "js_neg PosInf = NegInf"
| "js_neg NegInf = PosInf"
| "js_neg NaN = NaN"

subsection \<open>Rounding to a double\<close>

text \<open>
  \<open>ilog b q\<close> is the integer \<open>e\<close> with \<open>b ^ e <= q < b ^ (e + 1)\<close>, for \<open>q > 0\<close>.
\<close>

definition ilog :: "nat \<Rightarrow> rat \<Rightarrow> int" where
  "ilog b q =
     (if 1 \<le> q then int (floorlog b (nat \<lfloor>q\<rfloor>)) - 1
      else - int (floorlog b (nat \<lceil>1 / q\<rceil> - 1)))"

text \<open>Rounding to the nearest integer, ties to the even one.\<close>

definition rne :: "rat \<Rightarrow> int" where
  "rne x =
     (let f = \<lfloor>x\<rfloor>; r = x - of_int f
      in if r < 1 / 2 then f else if 1 / 2 < r then f + 1 else if even f then f else f + 1)"

text \<open>
  The exponent of the unit in the last place of a positive number: 52 binary digits
  below its leading one, and never below that of the subnormal numbers.
\<close>

definition ulp_exp :: "rat \<Rightarrow> int" where
  "ulp_exp q = max (ilog 2 q) (- 1022) - 52"

definition round_pos :: "rat \<Rightarrow> rat" where
  "round_pos q = of_int (rne (q / 2 powi ulp_exp q)) * 2 powi ulp_exp q"

text \<open>The double nearest to a rational; beyond the largest double it is an infinity.\<close>

definition double_of :: "rat \<Rightarrow> jsnum" where
  "double_of q =
     (if q = 0 then Num 0
      else if 2 powi 1024 \<le> round_pos \<bar>q\<bar> then (if q < 0 then NegInf else PosInf)
      else Num (if q < 0 then - round_pos \<bar>q\<bar> else round_pos \<bar>q\<bar>))"

subsection \<open>Arithmetic\<close>

text \<open>The sign of a number other than \<open>NaN\<close>: \<open>-1\<close>, \<open>0\<close> or \<open>1\<close>.\<close>

fun js_sign :: "jsnum \<Rightarrow> int" where
  "js_sign (Num q) = (if q < 0 then - 1 else if q = 0 then 0 else 1)"
| "js_sign PosInf = 1"
| "js_sign NegInf = - 1"
| "js_sign NaN = 0"

definition signed_inf :: "int \<Rightarrow> jsnum" where
  "signed_inf s = (if s = 0 then NaN else if s < 0 then NegInf else PosInf)"

fun js_add :: "jsnum \<Rightarrow> jsnum \<Rightarrow> jsnum" where
  "js_add NaN _ = NaN"
| "js_add _ NaN = NaN"
| "js_add (Num a) (Num b) = double_of (a + b)"
| "js_add PosInf NegInf = NaN"
| "js_add NegInf PosInf = NaN"
| "js_add PosInf _ = PosInf"
| "js_add NegInf _ = NegInf"
| "js_add (Num a) b = b"

fun js_mul :: "jsnum \<Rightarrow> jsnum \<Rightarrow> jsnum" where
  "js_mul NaN _ = NaN"
| "js_mul _ NaN = NaN"
| "js_mul (Num a) (Num b) = double_of (a * b)"
| "js_mul a b = signed_inf (js_sign a * js_sign b)"

fun js_div :: "jsnum \<Rightarrow> jsnum \<Rightarrow> jsnum" where
  "js_div NaN _ = NaN"
| "js_div _ NaN = NaN"
| "js_div (Num a) (Num b) = (if b = 0 then signed_inf (js_sign (Num a)) else double_of (a / b))"
| "js_div (Num a) _ = Num 0"
| "js_div a (Num b) = signed_inf (js_sign a * (if b < 0 then - 1 else 1))"
| "js_div _ _ = NaN"

subsection \<open>Characters and decimal digits\<close>

definition is_digit :: "char \<Rightarrow> bool" where
  "is_digit c = (c \<in> set ''0123456789'')"

text \<open>The class \<open>[\d.]\<close> of the progress pattern.\<close>

definition is_digit_or_dot :: "char \<Rightarrow> bool" where
  "is_digit_or_dot c = (is_digit c \<or> c = CHR ''.'')"

text \<open>
  White space skipped by \<open>String.prototype.trim\<close>, \<open>parseInt\<close> and \<open>parseFloat\<close>,
  among the code units below 256: tab, line feed, vertical tab, form feed, carriage
  return, space and no-break space.
\<close>

definition is_space :: "char \<Rightarrow> bool" where
  "is_space c =
     (c \<in> {CHR 0x09, CHR 0x0A, CHR 0x0B, CHR 0x0C, CHR 0x0D, CHR '' '', CHR 0xA0})"

definition digit_val :: "char \<Rightarrow> nat" where
  "digit_val c = of_char c - 48"

text \<open>The value of a string of decimal digits, most significant first.\<close>

definition digits_val :: "string \<Rightarrow> nat" where
  "digits_val ds = foldl (\<lambda>acc c. 10 * acc + digit_val c) 0 ds"

definition trim :: "string \<Rightarrow> string" where
  "trim s = rev (dropWhile is_space (rev (dropWhile is_space s)))"

fun strip_prefix :: "string \<Rightarrow> string \<Rightarrow> string option" where
  "strip_prefix [] s = Some s"
| "strip_prefix (p # ps) [] = None"
| "strip_prefix (p # ps) (c # cs) = (if p = c then strip_prefix ps cs else None)"

subsection \<open>parseInt(s, 10) and parseFloat(s)\<close>

text \<open>
  \<open>parseInt(s, 10)\<close>: leading white space is skipped, an optional sign is read, then the
  longest run of decimal digits; no digit at all gives \<open>NaN\<close>. The integer read is
  rounded to a double.
\<close>

definition parse_sign :: "string \<Rightarrow> bool \<times> string" where
  "parse_sign s =
     (case s of
        c # cs \<Rightarrow> if c = CHR ''-'' then (True, cs) else if c = CHR ''+'' then (False, cs) else (False, s)
      | [] \<Rightarrow> (False, s))"

definition parseInt :: "string \<Rightarrow> jsnum" where
  "parseInt s =
     (let (neg, r) = parse_sign (dropWhile is_space s);
          ds = takeWhile is_digit r
      in if ds = [] then NaN
         else if neg then js_neg (double_of (of_nat (digits_val ds)))
         else double_of (of_nat (digits_val ds)))"

text \<open>
  The exponent part \<open>e\<close>/\<open>E\<close>, optional sign, digits of a decimal literal; \<open>0\<close> when the
  text does not continue with a complete exponent part.
\<close>

definition parse_exponent :: "string \<Rightarrow> int" where
  "parse_exponent s =
     (case s of
        c # cs \<Rightarrow>
          if c = CHR ''e'' \<or> c = CHR ''E'' then
            (let (neg, r) = parse_sign cs; ds = takeWhile is_digit r
             in if ds = [] then 0
                else if neg then - int (digits_val ds) else int (digits_val ds))
          else 0
      | [] \<Rightarrow> 0)"

text \<open>
  The longest prefix that is an unsigned decimal literal: \<open>Infinity\<close>, or digits with an
  optional fraction and exponent, or a dot followed by digits. \<open>NaN\<close> when there is none.
  The decimal value read is rounded to a double.
\<close>

definition parse_unsigned :: "string \<Rightarrow> jsnum" where
  "parse_unsigned s =
     (if strip_prefix ''Infinity'' s \<noteq> None then PosInf
      else
        let ip = takeWhile is_digit s;
            r1 = dropWhile is_digit s;
            (fp, r2) = (case r1 of
                          c # r \<Rightarrow> if c = CHR ''.'' then (takeWhile is_digit r, dropWhile is_digit r)
                                   else ([], r1)
                        | [] \<Rightarrow> ([], r1))
        in if ip = [] \<and> fp = [] then NaN
           else double_of (of_nat (digits_val (ip @ fp)) / 10 ^ length fp
                             * 10 powi parse_exponent r2))"

definition parseFloat :: "string \<Rightarrow> jsnum" where
  "parseFloat s =
     (let (neg, r) = parse_sign (dropWhile is_space s);
          v = parse_unsigned r
      in if neg then js_neg v else v)"

subsection \<open>String(x): numbers as text\<close>

definition digit_char :: "nat \<Rightarrow> char" where
  "digit_char d = ''0123456789'' ! (d mod 10)"

fun show_nat :: "nat \<Rightarrow> string" where
  "show_nat n = (if n < 10 then [digit_char n] else show_nat (n div 10) @ [digit_char (n mod 10)])"

text \<open>
  The platform prints a positive double \<open>v\<close> with the fewest decimal digits that read
  back as \<open>v\<close>: integers \<open>s\<close>, \<open>k\<close>, \<open>n\<close> with \<open>k\<close> digits in \<open>s\<close>, the double nearest to
  \<open>s * 10 ^ (n - k)\<close> being \<open>v\<close>, and \<open>k\<close> as small as possible; of two such \<open>s\<close> the one
  nearer to \<open>v\<close>. \<open>decimal_candidate v k\<close> looks for \<open>s\<close> and \<open>n\<close> with \<open>k\<close> digits: only
  the two \<open>k\<close>-digit decimals around \<open>v\<close> can qualify.
\<close>

definition decimal_candidate :: "rat \<Rightarrow> nat \<Rightarrow> (int \<times> int) option" where
  "decimal_candidate v k =
     (let n0 = ilog 10 v + 1;
          p = 10 powi (n0 - int k);
          lo = \<lfloor>v / p\<rfloor>;
          hi = lo + 1;
          ok_lo = (double_of (of_int lo * p) = Num v);
          ok_hi = (double_of (of_int hi * p) = Num v);
          best = (if ok_lo \<and> ok_hi then
                    (if v - of_int lo * p < of_int hi * p - v then Some lo
                     else if of_int hi * p - v < v - of_int lo * p then Some hi
                     else if even lo then Some lo else Some hi)
                  else if ok_lo then Some lo
                  else if ok_hi then Some hi
                  else None)
      in case best of
           None \<Rightarrow> None
         | Some s \<Rightarrow> if s = 10 ^ k then Some (10 ^ (k - 1), n0 + 1) else Some (s, n0))"

text \<open>The search for the smallest \<open>k\<close>, starting at \<open>k\<close>; 17 digits always suffice.\<close>

fun shortest_digits :: "nat \<Rightarrow> nat \<Rightarrow> rat \<Rightarrow> int \<times> nat \<times> int" where
  "shortest_digits 0 k v = (\<lfloor>v / 10 powi (ilog 10 v + 1 - int k)\<rfloor>, k, ilog 10 v + 1)"
| "shortest_digits (Suc fuel) k v =
     (case decimal_candidate v k of
        Some (s, n) \<Rightarrow> (s, k, n)
      | None \<Rightarrow> shortest_digits fuel (Suc k) v)"

text \<open>The layout of the digits: plain up to \<open>10 ^ 21\<close> and down to \<open>10 ^ -6\<close>, with an
  exponent beyond.\<close>

definition layout :: "int \<times> nat \<times> int \<Rightarrow> string" where
  "layout skn =
     (case skn of (s, k, n) \<Rightarrow>
        let ds = show_nat (nat s) in
        if int k \<le> n \<and> n \<le> 21 then ds @ replicate (nat (n - int k)) CHR ''0''
        else if 0 < n \<and> n \<le> 21 then take (nat n) ds @ ''.'' @ drop (nat n) ds
        else if - 6 < n \<and> n \<le> 0 then ''0.'' @ replicate (nat (- n)) CHR ''0'' @ ds
        else
          let e = n - 1;
              es = (if e < 0 then ''-'' else ''+'') @ show_nat (nat \<bar>e\<bar>)
          in if k = 1 then ds @ ''e'' @ es
             else take 1 ds @ ''.'' @ drop 1 ds @ ''e'' @ es)"

text \<open>
  A positive double as text. An integer below \<open>2 ^ 53\<close> is printed with all its digits
  (they are the fewest that read back); other values go through the search.
\<close>

definition show_pos :: "rat \<Rightarrow> string" where
  "show_pos v =
     (if v = of_int \<lfloor>v\<rfloor> \<and> v < 2 ^ 53 then show_nat (nat \<lfloor>v\<rfloor>)
      else layout (shortest_digits 17 1 v))"

text \<open>\<open>String(x)\<close> and \<open>`${x}`\<close> for a number.\<close>

fun String_js :: "jsnum \<Rightarrow> string" where
  "String_js NaN = ''NaN''"
| "String_js PosInf = ''Infinity''"
| "String_js NegInf = ''-Infinity''"
| "String_js (Num q) =
     (if q = 0 then ''0'' else if q < 0 then ''-'' @ show_pos (- q) else show_pos q)"

section \<open>Helpers of the platform\<close>

subsection \<open>encodeURIComponent\<close>

text \<open>
  Characters kept as they are: letters, digits and \<open>- _ . ! ~ * ' ( )\<close>. Every other
  character is replaced by the bytes of its UTF-8 encoding, each written \<open>%XX\<close>: one
  byte below 128, two bytes from 128 on (all the code units a string holds here are below
  256).
\<close>

definition uri_unreserved :: "char \<Rightarrow> bool" where
  "uri_unreserved c =
     (c \<in> set ''ABCDEFGHIJKLMNOPQRSTUVWXYZabcdefghijklmnopqrstuvwxyz0123456789-_.!~*()''
      \<or> c = CHR 0x27)"

definition hex_digit :: "nat \<Rightarrow> char" where
  "hex_digit n = ''0123456789ABCDEF'' ! (n mod 16)"

definition percent_byte :: "nat \<Rightarrow> string" where
  "percent_byte b = [CHR ''%'', hex_digit (b div 16), hex_digit (b mod 16)]"

definition encode_char :: "char \<Rightarrow> string" where
  "encode_char c =
     (if uri_unreserved c then [c]
      else if of_char c < (128::nat) then percent_byte (of_char c)
      else percent_byte (192 + of_char c div 64) @ percent_byte (128 + of_char c mod 64))"

definition encodeURIComponent :: "string \<Rightarrow> string" where
  "encodeURIComponent s = concat (map encode_char s)"

subsection \<open>path.join (POSIX)\<close>

fun split_on :: "char \<Rightarrow> string \<Rightarrow> string list" where
  "split_on sep [] = [[]]"
| "split_on sep (c # cs) =
     (if c = sep then [] # split_on sep cs
      else (case split_on sep cs of s # ss \<Rightarrow> (c # s) # ss | [] \<Rightarrow> [[c]]))"

text \<open>
  Resolution of \<open>.\<close> and \<open>..\<close> segments; \<open>acc\<close> holds the segments kept so far, last
  first. Above the root of an absolute path \<open>..\<close> is dropped; in a relative path it is kept.
\<close>

fun normalize_segs :: "bool \<Rightarrow> string list \<Rightarrow> string list \<Rightarrow> string list" where
  "normalize_segs ab acc [] = rev acc"
| "normalize_segs ab acc (s # ss) =
     (if s = [] \<or> s = ''.'' then normalize_segs ab acc ss
      else if s = ''..'' then
        (case acc of
           [] \<Rightarrow> normalize_segs ab (if ab then [] else [s]) ss
         | a # as \<Rightarrow> if a = ''..'' then normalize_segs ab (s # acc) ss
                    else normalize_segs ab as ss)
      else normalize_segs ab (s # acc) ss)"

fun intercalate :: "string \<Rightarrow> string list \<Rightarrow> string" where
  "intercalate sep [] = []"
| "intercalate sep [s] = s"
| "intercalate sep (s # t # ss) = s @ sep @ intercalate sep (t # ss)"

text \<open>
  \<open>path.normalize\<close>: the empty path is \<open>.\<close>; a leading slash makes the path absolute
  and a trailing slash is kept.
\<close>

definition normalize :: "string \<Rightarrow> string" where
  "normalize p =
     (if p = [] then ''.''
      else
        let ab = (hd p = CHR ''/'');
            trailing = (last p = CHR ''/'');
            body = intercalate ''/'' (normalize_segs ab [] (split_on CHR ''/'' p))
        in if body = [] then (if ab then ''/'' else if trailing then ''./'' else ''.'')
           else (if ab then ''/'' else []) @ body @ (if trailing then ''/'' else []))"

text \<open>\<open>path.join(a, b)\<close>: the non-empty arguments, joined by a slash, normalized.\<close>

definition path_join :: "string \<Rightarrow> string \<Rightarrow> string" where
  "path_join a b =
     normalize (if a = [] then b else if b = [] then a else a @ ''/'' @ b)"

subsection \<open>The file name delivered by the upload middleware\<close>

text \<open>
  The route is wired as \<open>upload.single("file")\<close> with \<open>multer({ dest: ... })\<close>: the
  option \<open>preservePath\<close> is left off, so the middleware keeps of the file name sent by
  the client only the base name: what follows the last slash or backslash, and the empty
  name when that is \<open>.\<close> or \<open>..\<close>. This is what the handler reads as
  \<open>req.file.originalname\<close>.
\<close>

definition is_separator :: "char \<Rightarrow> bool" where
  "is_separator c = (c = CHR ''/'' \<or> c = CHR 0x5C)"

definition basename :: "string \<Rightarrow> string" where
  "basename name =
     (let b = rev (takeWhile (\<lambda>c. \<not> is_separator c) (rev name))
      in if b = ''..'' \<or> b = ''.'' then [] else b)"

section \<open>The duration prober\<close>

text \<open>
  \<open>probeDuration\<close> spawns the probing tool and registers three handlers: stdout data is
  appended to \<open>out\<close>, \<open>close\<close> resolves with the parsed, finite value or \<open>0\<close>, \<open>error\<close>
  resolves with \<open>0\<close>. A promise keeps the first value it is resolved with. The events a
  run delivers: a tool that cannot be spawned gives \<open>error\<close> and then \<open>close\<close>; a tool
  that ran gives its stdout chunks and then \<open>close\<close> (the exit code is passed to the
  handler, which takes no argument). Unlike the spawn of the encoder, this spawn has no
  run in which it throws: \<open>spawn\<close> throws at once only for a malformed command or
  argument, and here the command is the \<open>path\<close> string of the probing package (never
  \<open>null\<close>) and the arguments are four constants and the path the upload middleware
  generated. (A probing tool that never exits leaves the
  promise pending, like an encoder that never exits: no such run is among these.)
\<close>

datatype probe_event = Stdout string | ProbeClose "int option" | ProbeError

datatype probe_run = ProbeSpawnError | ProbeExited "string list" "int option"

fun probe_events :: "probe_run \<Rightarrow> probe_event list" where
  "probe_events ProbeSpawnError = [ProbeError, ProbeClose (Some (- 2))]"
| "probe_events (ProbeExited chunks code) = map Stdout chunks @ [ProbeClose code]"

record probe_state =
  out :: string
  resolved :: "jsnum option"

definition resolve :: "jsnum \<Rightarrow> probe_state \<Rightarrow> probe_state" where
  "resolve v ps = (case resolved ps of None \<Rightarrow> ps\<lparr>resolved := Some v\<rparr> | Some w \<Rightarrow> ps)"

fun probe_step :: "probe_state \<Rightarrow> probe_event \<Rightarrow> probe_state" where
  "probe_step ps (Stdout d) = ps\<lparr>out := out ps @ d\<rparr>"
| "probe_step ps (ProbeClose code) =
     (let sec = parseFloat (trim (out ps))
      in resolve (if isFinite sec then sec else Num 0) ps)"
| "probe_step ps ProbeError = resolve (Num 0) ps"

definition probeDuration :: "probe_run \<Rightarrow> jsnum option" where
  "probeDuration pr = resolved (foldl probe_step \<lparr>out = [], resolved = None\<rparr> (probe_events pr))"

section \<open>The upload handler\<close>

subsection \<open>Request, response and the outside world\<close>

record upload_file =
  file_path :: string
  originalname :: string

text \<open>
  The request as the handler reads it: \<open>req.file\<close> (absent when no file part arrived),
  the text fields of \<open>req.body\<close> (absent fields are \<open>undefined\<close>), \<open>req.protocol\<close>
  and \<open>req.get("host")\<close>.
\<close>

record request =
  req_file :: "upload_file option"
  body_factor :: "string option"
  body_fps :: "string option"
  body_bitrate :: "string option"
  req_protocol :: string
  req_host :: "string option"

text \<open>
  What the handler changes: the response (status code, headers, the chunks written, whether
  it has been ended), the paths handed to \<open>fs.unlink\<close>, and its variable \<open>lastPct\<close>.
\<close>

record state =
  statusCode :: nat
  headers :: "string \<rightharpoonup> string"
  written :: "string list"
  ended :: bool
  unlinked :: "string list"
  lastPct :: jsnum

definition initial :: state where
  "initial = \<lparr>statusCode = 200, headers = Map.empty, written = [], ended = False,
              unlinked = [], lastPct = Num (- 1)\<rparr>"

definition setHeader :: "string \<Rightarrow> string \<Rightarrow> state \<Rightarrow> state" where
  "setHeader k v st = st\<lparr>headers := (headers st)(k \<mapsto> v)\<rparr>"

text \<open>A chunk written after \<open>res.end()\<close> is refused by the platform and never sent.\<close>

definition res_write :: "string \<Rightarrow> state \<Rightarrow> state" where
  "res_write chunk st = (if ended st then st else st\<lparr>written := written st @ [chunk]\<rparr>)"

definition res_end :: "state \<Rightarrow> state" where
  "res_end st = st\<lparr>ended := True\<rparr>"

definition fs_unlink :: "string \<Rightarrow> state \<Rightarrow> state" where
  "fs_unlink p st = st\<lparr>unlinked := unlinked st @ [p]\<rparr>"

text \<open>
  The files on disk after the job, given those before, when every removal requested
  of an existing path succeeds: \<open>fs.unlink\<close> removes the path, and a request for a
  missing path changes nothing. The code does not look at the outcome (its callback is
  empty), so a removal refused by the file system would go unnoticed; \<open>unlinked\<close> is
  what the code requests, \<open>disk_after\<close> what follows from it on a disk that obeys.
\<close>

definition disk_after :: "string set \<Rightarrow> state \<Rightarrow> string set" where
  "disk_after disk st = disk - set (unlinked st)"

text \<open>
  Events of the encoder process, in the order the platform delivers them: chunks of its
  diagnostic stream, \<open>close\<close> with the exit code (\<open>null\<close> when a signal ended it), and
  \<open>error\<close>. A run of the encoder is one of three: \<open>spawn\<close> throws at once (no process,
  no handler is registered), as when the encoder package exports \<open>null\<close> instead of a
  path on a platform it has no binary for; the process cannot be started, and the platform emits
  \<open>error\<close> and then \<open>close\<close> with the negative error number as code; or the process
  runs, emits its chunks and then \<open>close\<close>. The code sets no timeout: an encoder that
  never exits never reaches \<open>close\<close>, and is not among these runs.
\<close>

datatype event = Data string | Close "int option" | Error

datatype encoder_run = SpawnThrows | SpawnError int | Exited "string list" "int option"

fun events_of :: "encoder_run \<Rightarrow> event list" where
  "events_of SpawnThrows = []"
| "events_of (SpawnError errno) = [Error, Close (Some errno)]"
| "events_of (Exited chunks code) = map Data chunks @ [Close code]"

text \<open>
  The rest of the outside world: \<open>Date.now()\<close> (a count of milliseconds, an integer
  far below \<open>2 ^ 53\<close>, which prints with all its digits), \<open>__dirname\<close>, whether
  \<open>fs.mkdirSync\<close> throws, the run of the probing tool and the run of the encoder.
\<close>

record env =
  now :: nat
  dirname :: string
  mkdir_throws :: bool
  probe :: probe_run
  encoder :: encoder_run

subsection \<open>Request parameters\<close>

text \<open>\<open>x || d\<close> on an optional string: \<open>undefined\<close> and the empty string are falsy.\<close>

definition or_default :: "string option \<Rightarrow> string \<Rightarrow> string" where
  "or_default x d = (case x of None \<Rightarrow> d | Some s \<Rightarrow> if s = [] then d else s)"

text \<open>\<open>req.file.originalname.replace(/\.[^.]+$/, "")\<close>: the leftmost dot that is followed
  by at least one character and by no further dot is removed with all that follows it.\<close>

fun origName :: "string \<Rightarrow> string" where
  "origName [] = []"
| "origName (c # cs) =
     (if c = CHR ''.'' \<and> cs \<noteq> [] \<and> CHR ''.'' \<notin> set cs then [] else c # origName cs)"

definition factor :: "request \<Rightarrow> jsnum" where
  "factor r = Math_max (Num 1) (parseFloat (or_default (body_factor r) ''1''))"

text \<open>\<open>null\<close> is \<open>None\<close>: the source frame rate is preserved.\<close>

definition fps :: "request \<Rightarrow> jsnum option" where
  "fps r =
     (if body_fps r = Some ''copy'' then None
      else let n = parseInt (or_default (body_fps r) ''0'')
           in if truthy n then Some n else None)"

definition bitrate :: "request \<Rightarrow> jsnum" where
  "bitrate r = parseInt (or_default (body_bitrate r) ''8000000'')"

definition downloadsDir :: "env \<Rightarrow> string" where
  "downloadsDir e = path_join (dirname e) ''downloads''"

definition outBase :: "env \<Rightarrow> upload_file \<Rightarrow> string" where
  "outBase e f = origName (originalname f) @ ''_desq_'' @ show_nat (now e) @ ''.mp4''"

definition outPath :: "env \<Rightarrow> upload_file \<Rightarrow> string" where
  "outPath e f = path_join (downloadsDir e) (outBase e f)"

definition vf :: "jsnum \<Rightarrow> string" where
  "vf fac = ''scale=trunc(iw*'' @ String_js fac @ ''/2)*2:ih,setsar=1''"

definition args :: "env \<Rightarrow> request \<Rightarrow> upload_file \<Rightarrow> string list" where
  "args e r f =
     [''-y'', ''-i'', file_path f]
     @ (case fps r of None \<Rightarrow> [] | Some n \<Rightarrow> if truthy n then [''-r'', String_js n] else [])
     @ [''-c:v'', ''libx264'', ''-b:v'', String_js (bitrate r),
        ''-pix_fmt'', ''yuv420p'',
        ''-vf'', vf (factor r),
        ''-c:a'', ''copy'',
        ''-movflags'', ''faststart'',
        outPath e f]"

subsection \<open>The progress pattern\<close>

text \<open>
  \<open>/time=(\d+):(\d+):([\d.]+)/\<close> tried at the start of a string. Each group is greedy and
  the character after a digit group must be a colon, so giving back characters never
  helps: the longest run is the only candidate.
\<close>

definition match_here :: "string \<Rightarrow> (string \<times> string \<times> string) option" where
  "match_here s =
     (case strip_prefix ''time='' s of
        None \<Rightarrow> None
      | Some r \<Rightarrow>
          let h = takeWhile is_digit r in
          (case dropWhile is_digit r of
             [] \<Rightarrow> None
           | c # r2 \<Rightarrow>
               if h = [] \<or> c \<noteq> CHR '':'' then None
               else
                 let m = takeWhile is_digit r2 in
                 (case dropWhile is_digit r2 of
                    [] \<Rightarrow> None
                  | d # r4 \<Rightarrow>
                      if m = [] \<or> d \<noteq> CHR '':'' then None
                      else
                        let sec = takeWhile is_digit_or_dot r4
                        in if sec = [] then None else Some (h, m, sec))))"

text \<open>\<open>s.match(...)\<close> without the global flag: the leftmost match, or \<open>null\<close>.\<close>

fun match_time :: "string \<Rightarrow> (string \<times> string \<times> string) option" where
  "match_time [] = None"
| "match_time (c # cs) =
     (case match_here (c # cs) of Some g \<Rightarrow> Some g | None \<Rightarrow> match_time cs)"

subsection \<open>The three handlers of the encoder process\<close>

definition elapsed :: "string \<times> string \<times> string \<Rightarrow> jsnum" where
  "elapsed g =
     (case g of (h, m, sec) \<Rightarrow>
        js_add (js_add (js_mul (parseInt h) (Num 3600)) (js_mul (parseInt m) (Num 60)))
               (parseFloat sec))"

definition percent :: "jsnum \<Rightarrow> jsnum \<Rightarrow> jsnum" where
  "percent t dur =
     Math_max (Num 0) (Math_min (Num 100) (Math_floor (js_mul (js_div t dur) (Num 100))))"

definition on_stderr_data :: "jsnum \<Rightarrow> string \<Rightarrow> state \<Rightarrow> state" where
  "on_stderr_data dur s st =
     (case match_time s of
        None \<Rightarrow> st
      | Some g \<Rightarrow>
          if js_gt dur (Num 0) then
            (let t = elapsed g; pct = percent t dur
             in if strict_neq pct (lastPct st)
                then res_write (''progress:'' @ String_js pct @ [CHR 0x0A]) (st\<lparr>lastPct := pct\<rparr>)
                else st)
          else st)"

definition publicUrl :: "env \<Rightarrow> request \<Rightarrow> upload_file \<Rightarrow> string" where
  "publicUrl e r f =
     req_protocol r @ ''://'' @ (case req_host r of None \<Rightarrow> ''undefined'' | Some h \<Rightarrow> h)
     @ ''/downloads/'' @ encodeURIComponent (outBase e f)"

definition status_done :: string where
  "status_done = ''status:done'' @ [CHR 0x0A]"

definition status_error :: string where
  "status_error = ''status:error'' @ [CHR 0x0A]"

definition download_line :: "env \<Rightarrow> request \<Rightarrow> upload_file \<Rightarrow> string" where
  "download_line e r f = ''download:'' @ publicUrl e r f @ [CHR 0x0A]"

definition on_close :: "env \<Rightarrow> request \<Rightarrow> upload_file \<Rightarrow> int option \<Rightarrow> state \<Rightarrow> state" where
  "on_close e r f code st =
     (let st1 = fs_unlink (file_path f) st
      in if code = Some 0
         then res_end (res_write status_done (res_write (download_line e r f) st1))
         else res_end (res_write status_error st1))"

definition on_error :: "upload_file \<Rightarrow> state \<Rightarrow> state" where
  "on_error f st = res_end (res_write status_error (fs_unlink (file_path f) st))"

fun handle :: "env \<Rightarrow> request \<Rightarrow> upload_file \<Rightarrow> jsnum \<Rightarrow> state \<Rightarrow> event \<Rightarrow> state" where
  "handle e r f dur st (Data s) = on_stderr_data dur s st"
| "handle e r f dur st (Close code) = on_close e r f code st"
| "handle e r f dur st Error = on_error f st"

subsection \<open>POST /upload\<close>

datatype error = TypeError | FsError | SpawnFailure

text \<open>
  The body of the \<open>try\<close> up to and including the spawn of the encoder. Reading
  \<open>req.file.path\<close> throws when no file arrived; \<open>fs.mkdirSync\<close> may throw;
  \<open>probeDuration\<close> is awaited, and a promise that is never resolved never lets the
  handler go on; \<open>spawn\<close> may throw. Otherwise the handlers are registered for the
  uploaded file and the probed duration.
\<close>

datatype prepared = Threw error | Pending | Ready upload_file jsnum

definition prepare :: "env \<Rightarrow> request \<Rightarrow> prepared" where
  "prepare e r =
     (case req_file r of
        None \<Rightarrow> Threw TypeError
      | Some f \<Rightarrow>
          if mkdir_throws e then Threw FsError
          else (case probeDuration (probe e) of
                  None \<Rightarrow> Pending
                | Some dur \<Rightarrow> if encoder e = SpawnThrows then Threw SpawnFailure else Ready f dur))"

text \<open>The \<open>catch\<close> block: its inner \<open>try\<close> swallows the failure of reading
  \<open>req.file.path\<close> when there is no file.\<close>

definition catch_block :: "request \<Rightarrow> state \<Rightarrow> state" where
  "catch_block r st =
     res_end (res_write status_error
       (case req_file r of None \<Rightarrow> st | Some f \<Rightarrow> fs_unlink (file_path f) st))"

definition run_events :: "env \<Rightarrow> request \<Rightarrow> upload_file \<Rightarrow> jsnum \<Rightarrow> state \<Rightarrow> event list \<Rightarrow> state" where
  "run_events e r f dur st evs = foldl (handle e r f dur) st evs"

text \<open>The response once the two headers are set, before the \<open>try\<close>.\<close>

definition headers_set :: state where
  "headers_set =
     setHeader ''Transfer-Encoding'' ''chunked''
       (setHeader ''Content-Type'' ''text/plain; charset=utf-8'' initial)"

definition upload :: "env \<Rightarrow> request \<Rightarrow> state" where
  "upload e r =
     (case prepare e r of
        Threw err \<Rightarrow> catch_block r headers_set
      | Pending \<Rightarrow> headers_set
      | Ready f dur \<Rightarrow> run_events e r f dur headers_set (events_of (encoder e)))"

section \<open>Vocabulary of the properties\<close>

text \<open>
  Lines of the response protocol: a progress line starts with \<open>progress:\<close>, and
  \<open>progress_line p\<close> is the one for the integer \<open>p\<close>; the two status lines close a job.
\<close>

definition is_progress_line :: "string \<Rightarrow> bool" where
  "is_progress_line l = (strip_prefix ''progress:'' l \<noteq> None)"

definition is_status_line :: "string \<Rightarrow> bool" where
  "is_status_line l = (l = status_done \<or> l = status_error)"

definition progress_line :: "int \<Rightarrow> string" where
  "progress_line p = ''progress:'' @ String_js (Num (of_int p)) @ [CHR 0x0A]"

text \<open>
  \<open>succeeds\<close>: the handlers were registered and the encoder exited with code \<open>0\<close>.
  \<open>spawn_fails\<close>: the handlers were registered and the encoder could not be started.
\<close>

definition succeeds :: "env \<Rightarrow> request \<Rightarrow> bool" where
  "succeeds e r =
     (case prepare e r of
        Ready f dur \<Rightarrow> (case encoder e of Exited chunks code \<Rightarrow> code = Some 0 | _ \<Rightarrow> False)
      | _ \<Rightarrow> False)"

definition spawn_fails :: "env \<Rightarrow> request \<Rightarrow> bool" where
  "spawn_fails e r =
     (case prepare e r of
        Ready f dur \<Rightarrow> (case encoder e of SpawnError errno \<Rightarrow> True | _ \<Rightarrow> False)
      | _ \<Rightarrow> False)"

text \<open>
  The chunks a run of the encoder delivers, and the elapsed times, in order, that the
  handler computes for the markers it finds in a list of chunks.
\<close>

fun stderr_chunks :: "encoder_run \<Rightarrow> string list" where
  "stderr_chunks (Exited chunks code) = chunks"
| "stderr_chunks _ = []"

definition marker_times :: "string list \<Rightarrow> jsnum list" where
  "marker_times chunks = map elapsed (List.map_filter match_time chunks)"

text \<open>
  The percentage as the specification words it, \<open>floor(clamp(elapsed / duration, 0, 1) * 100)\<close>:
  once in exact arithmetic, and once with the same operations on doubles. (The code
  clamps after rounding down: \<open>percent\<close>.)
\<close>

definition spec_pct :: "rat \<Rightarrow> rat \<Rightarrow> int" where
  "spec_pct elapsed_seconds duration = \<lfloor>max 0 (min 1 (elapsed_seconds / duration)) * 100\<rfloor>"


text \<open>The integer a percentage computed by the handler stands for.\<close>

definition pct_int :: "rat \<Rightarrow> rat \<Rightarrow> int" where
  "pct_int t d = (case percent (Num t) (Num d) of Num q \<Rightarrow> \<lfloor>q\<rfloor> | _ \<Rightarrow> 0)"

text \<open>
  The file object the upload middleware hands to the handler for a temporary path and
  the file name the client sent.
\<close>

definition received_file :: "string \<Rightarrow> string \<Rightarrow> upload_file" where
  "received_file tmp client_name = \<lparr>file_path = tmp, originalname = basename client_name\<rparr>"

text \<open>A path segment that names an entry: not empty, not \<open>.\<close>, not \<open>..\<close>, no slash in it.\<close>

definition plain_segment :: "string \<Rightarrow> bool" where
  "plain_segment s = (s \<noteq> [] \<and> s \<noteq> ''.'' \<and> s \<noteq> ''..'' \<and> CHR ''/'' \<notin> set s)"

section \<open>Example inputs\<close>

text \<open>
  A request with a file \<open>clip.mov\<close> and factor 1.5, in a world where the probing tool
  prints a duration of 8 seconds and the encoder prints one progress chunk and exits
  with code 0; and variations of both.
\<close>

definition file_example :: upload_file where
  "file_example = \<lparr>file_path = ''/tmp/desq_uploads/3f9a'', originalname = ''clip.mov''\<rparr>"

definition req_example :: request where
  "req_example =
     \<lparr>req_file = Some file_example, body_factor = Some ''1.5'', body_fps = None,
      body_bitrate = None, req_protocol = ''https'', req_host = Some ''example.org''\<rparr>"

definition env_example :: env where
  "env_example =
     \<lparr>now = 1700000000000, dirname = ''/app'', mkdir_throws = False,
      probe = ProbeExited [''8.000000'' @ [CHR 0x0A]] (Some 0),
      encoder = Exited [''frame=100 time=00:00:04.00 bitrate=524.3kbits/s''] (Some 0)\<rparr>"

definition env_spawn_error :: env where
  "env_spawn_error = env_example\<lparr>encoder := SpawnError (- 2)\<rparr>"

definition env_unknown_duration :: env where
  "env_unknown_duration = env_example\<lparr>probe := ProbeExited [''N/A'' @ [CHR 0x0A]] (Some 0)\<rparr>"

definition env_time_goes_back :: env where
  "env_time_goes_back =
     env_example\<lparr>encoder :=
       Exited [''time=00:00:04.00'', ''time=00:00:02.00'', ''time=00:00:04.00''] (Some 0)\<rparr>"

text \<open>An encoder that reports 2, 4, 4 and 6 seconds, with one chunk that has no marker.\<close>

definition env_steady :: env where
  "env_steady =
     env_example\<lparr>encoder :=
       Exited [''time=00:00:02.00'', ''time=00:00:04.00'', ''Press [q] to stop'',
               ''time=00:00:04.00'', ''time=00:00:06.00''] (Some 0)\<rparr>"

definition req_bad_bitrate :: request where
  "req_bad_bitrate = req_example\<lparr>body_bitrate := Some ''high''\<rparr>"

section \<open>Rounding to a double: bounds, monotonicity, exact values\<close>

lemma ilog_bounds:
  assumes b: "1 < b" and q: "0 < q"
  shows "of_nat b powi ilog b q \<le> q" and "q < of_nat b powi (ilog b q + 1)"
proof -
  have both: "of_nat b powi ilog b q \<le> q \<and> q < of_nat b powi (ilog b q + 1)"
  proof (cases "1 \<le> q")
    case True
    define n where "n = nat \<lfloor>q\<rfloor>"
    define L where "L = floorlog b n"
    from True have n: "0 < n" "of_nat n \<le> q" "q < of_nat n + 1"
      unfolding n_def by (auto simp: of_nat_nat) linarith+
    from floorlog_bounds [OF n(1) b] have fb: "b ^ (L - 1) \<le> n" "n < b ^ L"
      by (simp_all add: L_def)
    from n(1) b have L: "0 < L" unfolding L_def by (simp add: floorlog_def)
    have il: "ilog b q = int L - 1"
      using True by (simp add: ilog_def n_def L_def)
    have lo: "(of_nat b :: rat) powi (int L - 1) = of_nat (b ^ (L - 1))"
      using L by (simp add: power_int_def nat_diff_distrib)
    have hi: "(of_nat b :: rat) powi (int L - 1 + 1) = of_nat (b ^ L)"
      by simp
    from fb(1) have c1: "(of_nat (b ^ (L - 1)) :: rat) \<le> of_nat n"
      by (rule of_nat_mono)
    from fb(2) have "Suc n \<le> b ^ L" by simp
    then have "(of_nat (Suc n) :: rat) \<le> of_nat (b ^ L)" by (rule of_nat_mono)
    then have c2: "(of_nat n :: rat) + 1 \<le> of_nat (b ^ L)" by (simp only: of_nat_Suc add.commute)
    note c1 c2
    from this n show ?thesis unfolding il lo hi by linarith
  next
    case False
    define x where "x = 1 / q"
    define n where "n = nat \<lceil>x\<rceil>"
    define m where "m = n - 1"
    define K where "K = floorlog b m"
    from False q have x: "1 < x" unfolding x_def by simp
    then have n2: "2 \<le> n" unfolding n_def by linarith
    then have m: "0 < m" "n = m + 1" unfolding m_def by simp_all
    from x have xn: "x \<le> of_nat n" "of_nat n < x + 1"
      unfolding n_def by (auto simp: of_nat_nat) linarith+
    from floorlog_bounds [OF m(1) b] have fb: "b ^ (K - 1) \<le> m" "m < b ^ K"
      by (simp_all add: K_def)
    from m(1) b have K: "0 < K" unfolding K_def by (simp add: floorlog_def)
    have il: "ilog b q = - int K"
      using False by (simp add: ilog_def n_def m_def K_def x_def)
    from fb(1) have r1: "(of_nat (b ^ (K - 1)) :: rat) \<le> of_nat m"
      by (rule of_nat_mono)
    from fb(2) have "Suc m \<le> b ^ K" by simp
    then have "(of_nat (Suc m) :: rat) \<le> of_nat (b ^ K)" by (rule of_nat_mono)
    then have r2: "(of_nat m :: rat) + 1 \<le> of_nat (b ^ K)" by (simp only: of_nat_Suc add.commute)
    note r = r1 r2
    from m(2) have nm: "(of_nat n :: rat) = of_nat m + 1" by simp
    have p1: "x \<le> of_nat (b ^ K)" using xn r nm by linarith
    have p2: "of_nat (b ^ (K - 1)) < x" using xn r nm by linarith
    have bpos: "(0::rat) < of_nat (b ^ K)" "(0::rat) < of_nat (b ^ (K - 1))"
      using b by simp_all
    have lo: "(of_nat b :: rat) powi (- int K) = 1 / of_nat (b ^ K)"
      by (simp add: power_int_minus field_simps)
    have hi: "(of_nat b :: rat) powi (- int K + 1) = 1 / of_nat (b ^ (K - 1))"
      using K b by (simp add: power_int_def nat_diff_distrib field_simps)
    have "1 / of_nat (b ^ K) \<le> q"
      using p1 bpos q unfolding x_def by (simp add: field_simps)
    moreover have "q < 1 / of_nat (b ^ (K - 1))"
      using p2 bpos q unfolding x_def by (simp add: field_simps)
    ultimately show ?thesis unfolding il lo hi by simp
  qed
  from both show "of_nat b powi ilog b q \<le> q" and "q < of_nat b powi (ilog b q + 1)"
    by simp_all
qed

lemma ilog_unique:
  assumes b: "1 < b" and q: "0 < q"
    and lo: "of_nat b powi e \<le> q" and hi: "q < of_nat b powi (e + 1)"
  shows "ilog b q = e"
proof (rule ccontr)
  assume ne: "ilog b q \<noteq> e"
  from b have b1: "(1::rat) < of_nat b" by simp
  note ib = ilog_bounds [OF b q]
  show False
  proof (cases "ilog b q < e")
    case True
    then have "ilog b q + 1 \<le> e" by simp
    from power_int_increasing [OF this, of "of_nat b :: rat"] b1
    have "of_nat b powi (ilog b q + 1) \<le> (of_nat b :: rat) powi e" by simp
    with ib(2) lo show False by linarith
  next
    case False
    with ne have "e + 1 \<le> ilog b q" by simp
    from power_int_increasing [OF this, of "of_nat b :: rat"] b1
    have "of_nat b powi (e + 1) \<le> (of_nat b :: rat) powi ilog b q" by simp
    with ib(1) hi show False by linarith
  qed
qed

lemma ilog_mono:
  assumes b: "1 < b" and q: "0 < q" and le: "q \<le> r"
  shows "ilog b q \<le> ilog b r"
proof (rule ccontr)
  assume "\<not> ilog b q \<le> ilog b r"
  then have "ilog b r + 1 \<le> ilog b q" by simp
  from b have b1: "(1::rat) < of_nat b" by simp
  from power_int_increasing [OF \<open>ilog b r + 1 \<le> ilog b q\<close>, of "of_nat b :: rat"] b1
  have "of_nat b powi (ilog b r + 1) \<le> (of_nat b :: rat) powi ilog b q" by simp
  moreover from q le have r: "0 < r" by simp
  note ilog_bounds(2) [OF b r] ilog_bounds(1) [OF b q]
  ultimately show False using le by linarith
qed

text \<open>Rounding to the nearest integer, ties to the even one.\<close>

lemma rne_of_int [simp]: "rne (of_int n) = n"
  by (simp add: rne_def)

lemma rne_near: "\<bar>x - of_int (rne x)\<bar> \<le> 1 / 2"
  unfolding rne_def Let_def by (auto simp: abs_if) linarith+

lemma rne_floor_ceiling: "\<lfloor>x\<rfloor> \<le> rne x" "rne x \<le> \<lfloor>x\<rfloor> + 1"
  unfolding rne_def Let_def by auto

lemma rne_mono:
  assumes "x \<le> y"
  shows "rne x \<le> rne y"
proof (cases "\<lfloor>x\<rfloor> = \<lfloor>y\<rfloor>")
  case True
  with assms have "x - of_int \<lfloor>x\<rfloor> \<le> y - of_int \<lfloor>y\<rfloor>" by simp
  with True show ?thesis
    unfolding rne_def Let_def by auto
next
  case False
  with assms have "\<lfloor>x\<rfloor> + 1 \<le> \<lfloor>y\<rfloor>"
    using floor_mono [OF assms] by linarith
  with rne_floor_ceiling(2) [of x] rne_floor_ceiling(1) [of y] show ?thesis by linarith
qed

lemma rne_le: "x \<le> of_int n \<Longrightarrow> rne x \<le> n"
  using rne_mono [of x "of_int n"] by simp

lemma rne_ge: "of_int n \<le> x \<Longrightarrow> n \<le> rne x"
  using rne_mono [of "of_int n" x] by simp

lemma rne_eqI: "\<bar>x - of_int n\<bar> < 1 / 2 \<Longrightarrow> rne x = n"
  using rne_near [of x] by (auto simp: abs_if split: if_splits)

text \<open>
  The exponent of the unit in the last place of a positive number: 52 binary digits
  below its leading one, and never below the subnormal range.
\<close>

lemma ulp_exp_mono: "0 < q \<Longrightarrow> q \<le> r \<Longrightarrow> ulp_exp q \<le> ulp_exp r"
  unfolding ulp_exp_def using ilog_mono [of 2 q r] by simp

lemma round_pos_nonneg: "0 < q \<Longrightarrow> 0 \<le> round_pos q"
proof -
  assume "0 < q"
  then have "0 \<le> q / 2 powi ulp_exp q" by simp
  then have "0 \<le> rne (q / 2 powi ulp_exp q)" using rne_ge [of 0] by simp
  then show ?thesis unfolding round_pos_def by simp
qed

lemma pow2_split53: "(2::rat) powi (e + 1) = of_int (2 ^ 53) * 2 powi (e - 52)"
  using power_int_add [of "2::rat" 53 "e - 52"] by (simp add: add.commute)

lemma pow2_split52: "(2::rat) powi e = of_int (2 ^ 52) * 2 powi (e - 52)"
  using power_int_add [of "2::rat" 52 "e - 52"] by simp

lemma round_pos_upper:
  assumes "0 < q"
  shows "round_pos q \<le> 2 powi (max (ilog 2 q) (- 1022) + 1)"
proof -
  let ?u = "ulp_exp q"
  let ?e = "max (ilog 2 q) (- 1022)"
  have u: "(0::rat) < 2 powi ?u" by simp
  have split: "(2::rat) powi (?e + 1) = of_int (2 ^ 53) * 2 powi ?u"
    unfolding ulp_exp_def by (rule pow2_split53)
  have "q < 2 powi (ilog 2 q + 1)" using ilog_bounds(2) [of 2 q] assms by simp
  also have "\<dots> \<le> 2 powi (?e + 1)"
    by (intro power_int_increasing) simp_all
  finally have "q < of_int (2 ^ 53) * 2 powi ?u" unfolding split .
  then have "q / 2 powi ?u \<le> of_int (2 ^ 53)"
    using u by (simp add: field_simps)
  then have "rne (q / 2 powi ?u) \<le> 2 ^ 53" by (rule rne_le)
  then have "of_int (rne (q / 2 powi ?u)) \<le> (of_int (2 ^ 53) :: rat)"
    by (simp only: of_int_le_iff)
  then have "round_pos q \<le> of_int (2 ^ 53) * 2 powi ?u"
    unfolding round_pos_def using u by (intro mult_right_mono) simp_all
  then show ?thesis unfolding split .
qed

lemma round_pos_lower:
  assumes "0 < q" and "- 1022 \<le> ilog 2 q"
  shows "2 powi (ilog 2 q) \<le> round_pos q"
proof -
  let ?u = "ulp_exp q"
  have u: "(0::rat) < 2 powi ?u" by simp
  from assms(2) have ue: "?u = ilog 2 q - 52" by (simp add: ulp_exp_def)
  have split: "(2::rat) powi (ilog 2 q) = of_int (2 ^ 52) * 2 powi ?u"
    unfolding ue by (rule pow2_split52)
  have "2 powi (ilog 2 q) \<le> q" using ilog_bounds(1) [of 2 q] assms by simp
  then have "of_int (2 ^ 52) * 2 powi ?u \<le> q" unfolding split .
  then have "of_int (2 ^ 52) \<le> q / 2 powi ?u"
    using u by (simp add: field_simps)
  then have "2 ^ 52 \<le> rne (q / 2 powi ?u)" by (rule rne_ge)
  then have "(of_int (2 ^ 52) :: rat) \<le> of_int (rne (q / 2 powi ?u))"
    by (simp only: of_int_le_iff)
  then have "of_int (2 ^ 52) * 2 powi ?u \<le> round_pos q"
    unfolding round_pos_def using u by (intro mult_right_mono) simp_all
  then show ?thesis unfolding split .
qed

lemma round_pos_mono:
  assumes "0 < q" and "q \<le> r"
  shows "round_pos q \<le> round_pos r"
proof (cases "ulp_exp q = ulp_exp r")
  case True
  have "q / 2 powi ulp_exp r \<le> r / 2 powi ulp_exp r"
    using assms by (simp add: divide_right_mono)
  then have "rne (q / 2 powi ulp_exp r) \<le> rne (r / 2 powi ulp_exp r)" by (rule rne_mono)
  then have "(of_int (rne (q / 2 powi ulp_exp r)) :: rat) \<le> of_int (rne (r / 2 powi ulp_exp r))"
    by (simp only: of_int_le_iff)
  then show ?thesis unfolding round_pos_def True
    by (intro mult_right_mono) simp_all
next
  case False
  from assms have r: "0 < r" by simp
  from False ulp_exp_mono [OF assms] have lt: "ulp_exp q < ulp_exp r" by simp
  then have big: "max (ilog 2 q) (- 1022) + 1 \<le> ilog 2 r" and sub: "- 1022 \<le> ilog 2 r"
    unfolding ulp_exp_def by (auto simp: max_def split: if_splits)
  have "round_pos q \<le> 2 powi (max (ilog 2 q) (- 1022) + 1)"
    by (rule round_pos_upper [OF assms(1)])
  also have "\<dots> \<le> 2 powi (ilog 2 r)"
    using big by (intro power_int_increasing) simp_all
  also have "\<dots> \<le> round_pos r"
    by (rule round_pos_lower [OF r sub])
  finally show ?thesis .
qed

text \<open>The order of the numbers other than \<open>NaN\<close>.\<close>

lemma double_of_not_NaN [simp]: "double_of q \<noteq> NaN"
  by (simp add: double_of_def)

lemma double_of_minus: "double_of (- q) = js_neg (double_of q)"
  by (simp add: double_of_def)

lemma double_of_pos:
  assumes "0 < q"
  shows "double_of q = (if 2 powi 1024 \<le> round_pos q then PosInf else Num (round_pos q))"
  using assms by (simp add: double_of_def)

lemma double_of_nonneg: "0 \<le> q \<Longrightarrow> js_le (Num 0) (double_of q)"
  using round_pos_nonneg [of q] by (cases "q = 0") (simp_all add: double_of_def)

lemma double_of_nonpos: "q \<le> 0 \<Longrightarrow> js_le (double_of q) (Num 0)"
  using round_pos_nonneg [of "- q"] by (cases "q = 0") (simp_all add: double_of_def)

lemma js_le_trans: "js_le a b \<Longrightarrow> js_le b c \<Longrightarrow> js_le a c"
  by (cases a; cases b; cases c) simp_all

lemma js_le_refl: "a \<noteq> NaN \<Longrightarrow> js_le a a"
  by (cases a) simp_all

lemma js_le_neg: "js_le a b \<Longrightarrow> js_le (js_neg b) (js_neg a)"
  by (cases a; cases b) simp_all

lemma double_of_mono_pos:
  assumes "0 < q" and "q \<le> r"
  shows "js_le (double_of q) (double_of r)"
proof -
  from assms have r: "0 < r" by simp
  from round_pos_mono [OF assms] show ?thesis
    by (simp add: double_of_pos [OF assms(1)] double_of_pos [OF r])
qed

lemma double_of_mono:
  assumes "q \<le> r"
  shows "js_le (double_of q) (double_of r)"
proof -
  consider "0 < q" | "q \<le> 0" "0 \<le> r" | "r < 0" by linarith
  then show ?thesis
  proof cases
    case 1
    then show ?thesis using assms by (rule double_of_mono_pos)
  next
    case 2
    from double_of_nonpos [OF 2(1)] double_of_nonneg [OF 2(2)] show ?thesis
      by (rule js_le_trans)
  next
    case 3
    with assms have "0 < - r" "- r \<le> - q" by simp_all
    then have "js_le (double_of (- r)) (double_of (- q))" by (rule double_of_mono_pos)
    then have "js_le (js_neg (double_of (- q))) (js_neg (double_of (- r)))" by (rule js_le_neg)
    then show ?thesis by (simp add: double_of_minus [symmetric])
  qed
qed

text \<open>A number with at most 53 significant bits and an exponent in range is a double.\<close>

lemma double_of_exact_pos:
  assumes q: "q = of_int n * 2 powi k" and n: "0 < n" "n < 2 ^ 53"
    and k: "- 1074 \<le> k" "k \<le> 971"
  shows "double_of q = Num q"
proof -
  from n have qpos: "0 < q" unfolding q by simp
  define u where "u = ulp_exp q"
  from n(2) have "(of_int n :: rat) < of_int (2 ^ 53)" by (simp only: of_int_less_iff)
  then have "q < of_int (2 ^ 53) * 2 powi k"
    unfolding q by (intro mult_strict_right_mono) simp_all
  also have "\<dots> = 2 powi (k + 53)"
    using power_int_add [of "2::rat" 53 k] by (simp add: add.commute)
  finally have qlt: "q < 2 powi (k + 53)" .
  have "ilog 2 q < k + 53"
  proof (rule ccontr)
    assume "\<not> ilog 2 q < k + 53"
    then have "k + 53 \<le> ilog 2 q" by simp
    then have "(2::rat) powi (k + 53) \<le> 2 powi ilog 2 q"
      by (intro power_int_increasing) simp_all
    with ilog_bounds(1) [of 2 q] qpos qlt show False by simp
  qed
  with k have uk: "u \<le> k" unfolding u_def ulp_exp_def by simp
  have "(2::rat) powi k = 2 powi (k - u) * 2 powi u"
    using power_int_add [of "2::rat" "k - u" u] by simp
  also have "(2::rat) powi (k - u) = of_int (2 ^ nat (k - u))"
    using uk by (simp add: power_int_def)
  finally have pk: "(2::rat) powi k = of_int (2 ^ nat (k - u)) * 2 powi u" .
  have qu: "q = of_int (n * 2 ^ nat (k - u)) * 2 powi u"
    unfolding q pk by simp
  have "q / 2 powi u = of_int (n * 2 ^ nat (k - u))"
    by (subst qu) simp
  then have "rne (q / 2 powi u) = n * 2 ^ nat (k - u)"
    by (simp only: rne_of_int)
  then have "round_pos q = of_int (n * 2 ^ nat (k - u)) * 2 powi u"
    unfolding round_pos_def u_def by simp
  with qu have rp: "round_pos q = q" by simp
  have "(2::rat) powi (k + 53) \<le> 2 powi 1024"
    using k by (intro power_int_increasing) simp_all
  with qlt have "\<not> 2 powi 1024 \<le> q" by simp
  then show ?thesis
    by (simp add: double_of_pos [OF qpos] rp)
qed

lemma double_of_exact:
  assumes q: "q = of_int n * 2 powi k" and n: "\<bar>n\<bar> < 2 ^ 53"
    and k: "- 1074 \<le> k" "k \<le> 971"
  shows "double_of q = Num q"
proof -
  consider "n = 0" | "0 < n" | "n < 0" by linarith
  then show ?thesis
  proof cases
    case 1
    then show ?thesis by (simp add: q double_of_def)
  next
    case 2
    with n have "n < 2 ^ 53" by simp
    from double_of_exact_pos [OF q 2 this k] show ?thesis .
  next
    case 3
    with n have a: "0 < - n" "- n < 2 ^ 53" by simp_all
    have "- q = of_int (- n) * 2 powi k" by (simp add: q)
    from double_of_exact_pos [OF this a k] have "double_of (- q) = Num (- q)" .
    then show ?thesis by (simp add: double_of_minus) (cases "double_of q"; simp)
  qed
qed

text \<open>Rounding a positive number in the normal range, with its exponent and its
  rounded significand given.\<close>

lemma double_of_evalI:
  assumes q: "0 < q" and lo: "2 powi e \<le> q" and hi: "q < 2 powi (e + 1)"
    and e: "- 1022 \<le> e"
    and n: "\<bar>q / 2 powi (e - 52) - of_int n\<bar> < 1 / 2"
    and fin: "of_int n * 2 powi (e - 52) < (2::rat) powi 1024"
  shows "double_of q = Num (of_int n * 2 powi (e - 52))"
proof -
  have il: "ilog 2 q = e"
    using ilog_unique [of 2 q e] q lo hi by simp
  with e have u: "ulp_exp q = e - 52" by (simp add: ulp_exp_def)
  from n have "rne (q / 2 powi (e - 52)) = n" by (rule rne_eqI)
  then have "round_pos q = of_int n * 2 powi (e - 52)"
    by (simp add: round_pos_def u)
  with fin show ?thesis by (simp add: double_of_pos [OF q])
qed

lemma double_of_examples:
  "double_of 0 = Num 0" "double_of 1 = Num 1" "double_of 100 = Num 100"
  "double_of (29 / 10) = Num (6530219459687219 / 2251799813685248)"
proof -
  show "double_of 0 = Num 0" by (simp add: double_of_def)
  show "double_of 1 = Num 1" using double_of_exact [of 1 1 0] by simp
  show "double_of 100 = Num 100" using double_of_exact [of 100 100 0] by simp
  show "double_of (29 / 10) = Num (6530219459687219 / 2251799813685248)"
    using double_of_evalI [of "29 / 10" 1 6530219459687219] by simp
qed

section \<open>Doubles in the program\<close>

lemma double_of_int: "\<bar>n\<bar> < 2 ^ 53 \<Longrightarrow> double_of (of_int n) = Num (of_int n)"
  using double_of_exact [of "of_int n" n 0] by simp

lemma double_of_nat: "n < 2 ^ 53 \<Longrightarrow> double_of (of_nat n) = Num (of_nat n)"
  using double_of_int [of "int n"] by simp

lemma double_of_numeral:
  "numeral w < (2::int) ^ 53 \<Longrightarrow> double_of (numeral w) = Num (numeral w)"
  using double_of_int [of "numeral w"] by simp

lemma double_of_0: "double_of 0 = Num 0"
  by (simp add: double_of_def)

lemma double_of_1: "double_of 1 = Num 1"
  using double_of_int [of 1] by simp

text \<open>Halves, quarters and the like: integers below \<open>2 ^ 53\<close> over a power of two.\<close>

lemma double_of_dyadic:
  assumes "\<bar>n\<bar> < 2 ^ 53" and "k \<le> 1074"
  shows "double_of (of_int n / 2 ^ k) = Num (of_int n / 2 ^ k)"
proof -
  have "(of_int n / 2 ^ k :: rat) = of_int n * 2 powi (- int k)"
    by (simp add: power_int_minus field_simps)
  from double_of_exact [OF this assms(1)] assms(2) show ?thesis by simp
qed

lemma double_of_small:
  "double_of (1 / 2) = Num (1 / 2)" "double_of (1 / 4) = Num (1 / 4)"
  "double_of (3 / 4) = Num (3 / 4)" "double_of (3 / 2) = Num (3 / 2)"
  "double_of (7 / 2) = Num (7 / 2)" "double_of (25 / 2) = Num (25 / 2)"
  using double_of_dyadic [of 1 1] double_of_dyadic [of 1 2] double_of_dyadic [of 3 2]
    double_of_dyadic [of 3 1] double_of_dyadic [of 7 1] double_of_dyadic [of 25 1]
  by simp_all

lemmas double_eval = double_of_0 double_of_1 double_of_numeral double_of_small

lemma js_le_NegInf: "z \<noteq> NaN \<Longrightarrow> js_le NegInf z"
  by (cases z) simp_all

lemma js_le_PosInf: "z \<noteq> NaN \<Longrightarrow> js_le z PosInf"
  by (cases z) simp_all

lemma js_le_not_NaN: "js_le x y \<Longrightarrow> x \<noteq> NaN \<and> y \<noteq> NaN"
  by (cases x; cases y) simp_all

lemma js_le_Num_iff: "js_le (Num a) (Num b) = (a \<le> b)"
  by simp

lemma js_mul_100_mono: "js_le x y \<Longrightarrow> js_le (js_mul x (Num 100)) (js_mul y (Num 100))"
  by (cases x; cases y)
     (simp_all add: signed_inf_def double_of_mono js_le_NegInf js_le_PosInf)

lemma Math_floor_mono: "js_le x y \<Longrightarrow> js_le (Math_floor x) (Math_floor y)"
  by (cases x; cases y) (simp_all add: floor_mono)

lemma Math_min_mono: "js_le x y \<Longrightarrow> js_le (Math_min (Num c) x) (Math_min (Num c) y)"
  by (cases x; cases y) auto

lemma Math_max_mono: "js_le x y \<Longrightarrow> js_le (Math_max (Num c) x) (Math_max (Num c) y)"
  by (cases x; cases y) auto

lemma js_div_Num: "d \<noteq> 0 \<Longrightarrow> js_div (Num t) (Num d) = double_of (t / d)"
  by simp

lemma percent_mono:
  assumes "0 < d" and "t \<le> t'"
  shows "js_le (percent (Num t) (Num d)) (percent (Num t') (Num d))"
proof -
  from assms have "t / d \<le> t' / d" by (simp add: divide_right_mono)
  then have "js_le (js_div (Num t) (Num d)) (js_div (Num t') (Num d))"
    using assms(1) by (simp add: double_of_mono)
  then show ?thesis
    unfolding percent_def
    by (intro Math_max_mono Math_min_mono Math_floor_mono js_mul_100_mono)
qed

lemma clamp_Num:
  "Math_max (Num 0) (Math_min (Num 100) (Num (of_int x))) = Num (of_int (max 0 (min 100 x)))"
  by (simp add: max_def min_def)

lemma clamp_range:
  assumes "x \<noteq> NaN"
  shows "\<exists>p. Math_max (Num 0) (Math_min (Num 100) (Math_floor x)) = Num (of_int p) \<and>
             0 \<le> p \<and> p \<le> 100"
proof (cases x)
  case (Num q)
  have "Math_max (Num 0) (Math_min (Num 100) (Math_floor x)) =
          Num (of_int (max 0 (min 100 \<lfloor>q\<rfloor>)))"
    unfolding Num Math_floor.simps by (rule clamp_Num)
  then show ?thesis by (intro exI [of _ "max 0 (min 100 \<lfloor>q\<rfloor>)"]) simp
next
  case PosInf
  then show ?thesis by (intro exI [of _ 100]) simp
next
  case NegInf
  then show ?thesis by (intro exI [of _ 0]) simp
next
  case NaN
  with assms show ?thesis by simp
qed

lemma js_mul_100_not_NaN: "x \<noteq> NaN \<Longrightarrow> js_mul x (Num 100) \<noteq> NaN"
  by (cases x) (simp_all add: signed_inf_def)

lemma percent_pct_int:
  assumes "0 < d"
  shows "percent (Num t) (Num d) = Num (of_int (pct_int t d))"
    and "0 \<le> pct_int t d" and "pct_int t d \<le> 100"
proof -
  from assms have "js_div (Num t) (Num d) \<noteq> NaN" by simp
  then have "js_mul (js_div (Num t) (Num d)) (Num 100) \<noteq> NaN"
    by (rule js_mul_100_not_NaN)
  from clamp_range [OF this] obtain p where
    p: "percent (Num t) (Num d) = Num (of_int p)" "0 \<le> p" "p \<le> 100"
    unfolding percent_def by blast
  then have "pct_int t d = p" by (simp add: pct_int_def)
  with p show "percent (Num t) (Num d) = Num (of_int (pct_int t d))"
    and "0 \<le> pct_int t d" and "pct_int t d \<le> 100"
    by simp_all
qed

lemma pct_int_mono:
  assumes "0 < d" and "t \<le> t'"
  shows "pct_int t d \<le> pct_int t' d"
  using percent_mono [OF assms] by (simp add: percent_pct_int(1) [OF assms(1)])



section \<open>Evaluation of the platform helpers\<close>

declare show_nat.simps [simp del]

lemmas response_defs = res_write_def res_end_def fs_unlink_def setHeader_def

lemmas parse_defs =
  parseFloat_def parseInt_def parse_sign_def parse_unsigned_def parse_exponent_def
  is_digit_def is_digit_or_dot_def is_space_def digits_val_def digit_val_def trim_def Let_def



section \<open>The prober resolves\<close>

lemma probeDuration_events:
  "probeDuration ProbeSpawnError = Some (Num 0)"
  "probeDuration (ProbeExited chunks code) =
     Some (if isFinite (parseFloat (trim (concat chunks))) then parseFloat (trim (concat chunks))
           else Num 0)"
proof -
  show "probeDuration ProbeSpawnError = Some (Num 0)"
    by (simp add: probeDuration_def resolve_def)
  have out: "foldl probe_step ps (map Stdout chunks) = ps\<lparr>out := out ps @ concat chunks\<rparr>" for ps
    by (induction chunks arbitrary: ps) simp_all
  show "probeDuration (ProbeExited chunks code) =
     Some (if isFinite (parseFloat (trim (concat chunks))) then parseFloat (trim (concat chunks))
           else Num 0)"
    by (simp add: probeDuration_def out resolve_def Let_def)
qed

lemma probeDuration_Num: "\<exists>q. probeDuration pr = Some (Num q)"
proof (cases pr)
  case ProbeSpawnError
  then show ?thesis by (simp add: probeDuration_events)
next
  case (ProbeExited chunks code)
  then show ?thesis
    by (cases "parseFloat (trim (concat chunks))") (simp_all add: probeDuration_events)
qed

lemma probe_example: "probeDuration (ProbeExited [''8.000000'' @ [CHR 0x0A]] (Some 0)) = Some (Num 8)"
  by (simp add: probeDuration_def resolve_def parse_defs double_eval)

section \<open>Frame and outcome lemmas\<close>

lemma headers_set_simps:
  "statusCode headers_set = 200" "written headers_set = []" "ended headers_set = False"
  "unlinked headers_set = []" "lastPct headers_set = Num (- 1)"
  "headers headers_set ''Content-Type'' = Some ''text/plain; charset=utf-8''"
  "headers headers_set ''Transfer-Encoding'' = Some ''chunked''"
  by (simp_all add: headers_set_def initial_def setHeader_def)

lemma on_stderr_data_frame:
  "statusCode (on_stderr_data dur s st) = statusCode st"
  "headers (on_stderr_data dur s st) = headers st"
  "ended (on_stderr_data dur s st) = ended st"
  "unlinked (on_stderr_data dur s st) = unlinked st"
  by (simp_all add: on_stderr_data_def res_write_def Let_def split: option.splits)

lemma on_stderr_data_written:
  "written (on_stderr_data dur s st) = written st \<or>
   (\<exists>x. written (on_stderr_data dur s st) = written st @ [''progress:'' @ x])"
  by (simp add: on_stderr_data_def res_write_def Let_def split: option.splits)

lemma handle_frame:
  "statusCode (handle e r f dur st ev) = statusCode st"
  "headers (handle e r f dur st ev) = headers st"
  by (cases ev; simp add: on_stderr_data_frame on_close_def on_error_def response_defs Let_def)+

lemma run_events_frame:
  "statusCode (run_events e r f dur st evs) = statusCode st \<and>
   headers (run_events e r f dur st evs) = headers st"
  unfolding run_events_def
  by (induction evs arbitrary: st) (simp_all add: handle_frame)

lemma is_progress_line_progress: "is_progress_line (''progress:'' @ x)"
  by (simp add: is_progress_line_def)

lemma is_progress_line_progress_line: "is_progress_line (progress_line p)"
  unfolding progress_line_def by (rule is_progress_line_progress)

lemma filter_progress_lines:
  "filter is_progress_line (map progress_line ps) = map progress_line ps"
  by (induction ps) (simp_all add: is_progress_line_progress_line)

lemma status_lines_distinct:
  "status_done \<noteq> status_error" "\<not> is_progress_line status_done" "\<not> is_progress_line status_error"
  "\<not> is_progress_line (download_line e r f)" "\<not> is_status_line (download_line e r f)"
  "is_status_line status_done" "is_status_line status_error"
  by (simp_all add: status_done_def status_error_def is_progress_line_def is_status_line_def
      download_line_def)

lemma progress_not_status: "is_progress_line l \<Longrightarrow> \<not> is_status_line l"
  using status_lines_distinct(2,3) by (auto simp: is_status_line_def)

lemma filter_status_progress: "list_all is_progress_line ps \<Longrightarrow> filter is_status_line ps = []"
  by (induction ps) (simp_all add: progress_not_status)

text \<open>While only chunks arrive, only progress lines are written, the response stays
  open and nothing is unlinked.\<close>

lemma run_data:
  "\<exists>ps. list_all is_progress_line ps \<and>
        written (foldl (handle e r f dur) st (map Data chunks)) = written st @ ps \<and>
        ended (foldl (handle e r f dur) st (map Data chunks)) = ended st \<and>
        unlinked (foldl (handle e r f dur) st (map Data chunks)) = unlinked st"
proof (induction chunks arbitrary: st)
  case Nil
  show ?case by (rule exI [of _ "[]"]) simp
next
  case (Cons c cs)
  let ?st1 = "on_stderr_data dur c st"
  from Cons.IH [of ?st1] obtain ps where ps:
    "list_all is_progress_line ps"
    "written (foldl (handle e r f dur) ?st1 (map Data cs)) = written ?st1 @ ps"
    "ended (foldl (handle e r f dur) ?st1 (map Data cs)) = ended ?st1"
    "unlinked (foldl (handle e r f dur) ?st1 (map Data cs)) = unlinked ?st1"
    by blast
  from on_stderr_data_written [of dur c st] show ?case
  proof
    assume "written ?st1 = written st"
    with ps show ?thesis
      by (intro exI [of _ ps]) (simp add: on_stderr_data_frame)
  next
    assume "\<exists>x. written ?st1 = written st @ [''progress:'' @ x]"
    then obtain x where "written ?st1 = written st @ [''progress:'' @ x]" ..
    with ps is_progress_line_progress [of x] show ?thesis
      by (intro exI [of _ "(''progress:'' @ x) # ps"]) (simp add: on_stderr_data_frame)
  qed
qed

lemma on_stderr_data_no_duration: "\<not> js_gt dur (Num 0) \<Longrightarrow> on_stderr_data dur s st = st"
  by (simp add: on_stderr_data_def split: option.splits)

lemma run_data_no_duration:
  "\<not> js_gt dur (Num 0) \<Longrightarrow> foldl (handle e r f dur) st (map Data chunks) = st"
  by (induction chunks arbitrary: st) (simp_all add: on_stderr_data_no_duration)

lemma catch_block_result:
  "written (catch_block r headers_set) = [status_error]"
  "ended (catch_block r headers_set)"
  "unlinked (catch_block r headers_set) = (case req_file r of None \<Rightarrow> [] | Some f \<Rightarrow> [file_path f])"
  "statusCode (catch_block r headers_set) = 200"
  "headers (catch_block r headers_set) = headers headers_set"
  by (simp_all add: catch_block_def response_defs headers_set_simps split: option.splits)

lemma spawn_error_result:
  "written (on_close e r f code (on_error f headers_set)) = [status_error]"
  "ended (on_close e r f code (on_error f headers_set))"
  "unlinked (on_close e r f code (on_error f headers_set)) = [file_path f, file_path f]"
  by (simp_all add: on_close_def on_error_def response_defs headers_set_simps Let_def)

lemma on_close_result:
  assumes "\<not> ended st"
  shows "ended (on_close e r f code st)"
    and "unlinked (on_close e r f code st) = unlinked st @ [file_path f]"
    and "written (on_close e r f code st) =
           written st @ (if code = Some 0 then [download_line e r f, status_done] else [status_error])"
  using assms by (simp_all add: on_close_def response_defs Let_def)

lemma exited_result:
  "\<exists>ps. list_all is_progress_line ps \<and>
     written (on_close e r f code (foldl (handle e r f dur) headers_set (map Data chunks))) =
       ps @ (if code = Some 0 then [download_line e r f, status_done] else [status_error]) \<and>
     ended (on_close e r f code (foldl (handle e r f dur) headers_set (map Data chunks))) \<and>
     unlinked (on_close e r f code (foldl (handle e r f dur) headers_set (map Data chunks))) = [file_path f]"
proof -
  obtain ps where ps: "list_all is_progress_line ps"
    "written (foldl (handle e r f dur) headers_set (map Data chunks)) = written headers_set @ ps"
    "ended (foldl (handle e r f dur) headers_set (map Data chunks)) = ended headers_set"
    "unlinked (foldl (handle e r f dur) headers_set (map Data chunks)) = unlinked headers_set"
    using run_data [of e r f dur headers_set chunks] by blast
  then have "\<not> ended (foldl (handle e r f dur) headers_set (map Data chunks))"
    by (simp add: headers_set_simps)
  from on_close_result [OF this] ps show ?thesis
    by (intro exI [of _ ps]) (simp add: headers_set_simps)
qed

text \<open>
  The three ways a request ends: the \<open>catch\<close> block; the \<open>error\<close> handler followed by
  the \<open>close\<close> handler; the chunks followed by the \<open>close\<close> handler. The probed duration
  is a finite number in the last two.
\<close>

lemma upload_cases [case_names threw spawn_error exited]:
  obtains
    (threw) err where "prepare e r = Threw err" and "upload e r = catch_block r headers_set"
  | (spawn_error) f d errno where "prepare e r = Ready f (Num d)" and "req_file r = Some f"
      and "encoder e = SpawnError errno"
      and "upload e r = on_close e r f (Some errno) (on_error f headers_set)"
  | (exited) f d chunks code where "prepare e r = Ready f (Num d)" and "req_file r = Some f"
      and "encoder e = Exited chunks code"
      and "upload e r =
             on_close e r f code (foldl (handle e r f (Num d)) headers_set (map Data chunks))"
proof -
  obtain d where d: "probeDuration (probe e) = Some (Num d)"
    using probeDuration_Num [of "probe e"] by blast
  show thesis
  proof (cases "req_file r")
    case None
    then have "prepare e r = Threw TypeError" by (simp add: prepare_def)
    then show thesis by (intro threw [of TypeError]) (simp_all add: upload_def)
  next
    case (Some f)
    show thesis
    proof (cases "mkdir_throws e")
      case True
      with Some have "prepare e r = Threw FsError" by (simp add: prepare_def)
      then show thesis by (intro threw [of FsError]) (simp_all add: upload_def)
    next
      case False
      show thesis
      proof (cases "encoder e")
        case SpawnThrows
        with Some False d have "prepare e r = Threw SpawnFailure" by (simp add: prepare_def)
        then show thesis by (intro threw [of SpawnFailure]) (simp_all add: upload_def)
      next
        case (SpawnError errno)
        with Some False d have "prepare e r = Ready f (Num d)" by (simp add: prepare_def)
        with Some SpawnError show thesis
          by (intro spawn_error [of f d errno]) (simp_all add: upload_def run_events_def)
      next
        case (Exited chunks code)
        with Some False d have "prepare e r = Ready f (Num d)" by (simp add: prepare_def)
        with Some Exited show thesis
          by (intro exited [of f d chunks code]) (simp_all add: upload_def run_events_def)
      qed
    qed
  qed
qed

lemma upload_outcome:
  "\<exists>ps. list_all is_progress_line ps \<and> ended (upload e r) \<and>
     (if succeeds e r
      then \<exists>f. req_file r = Some f \<and> written (upload e r) = ps @ [download_line e r f, status_done]
      else written (upload e r) = ps @ [status_error])"
proof (cases rule: upload_cases [of e r])
  case (threw err)
  then show ?thesis
    by (intro exI [of _ "[]"]) (simp add: catch_block_result succeeds_def)
next
  case (spawn_error f d errno)
  then show ?thesis
    by (intro exI [of _ "[]"]) (simp add: spawn_error_result succeeds_def)
next
  case (exited f d chunks code)
  from exited_result [of e r f code "Num d" chunks] exited(4) obtain ps where
    "list_all is_progress_line ps"
    "written (upload e r) =
       ps @ (if code = Some 0 then [download_line e r f, status_done] else [status_error])"
    "ended (upload e r)"
    by auto
  with exited(1-3) show ?thesis
    by (intro exI [of _ ps]) (simp add: succeeds_def)
qed

lemma statusCode_upload: "statusCode (upload e r) = 200 \<and> headers (upload e r) = headers headers_set"
  by (cases "prepare e r")
     (simp_all add: upload_def catch_block_result run_events_frame headers_set_simps)

lemma unlinked_upload:
  assumes "req_file r = Some f"
  shows "unlinked (upload e r) =
           (if spawn_fails e r then [file_path f, file_path f] else [file_path f])"
proof (cases rule: upload_cases [of e r])
  case (threw err)
  with assms show ?thesis
    by (simp add: catch_block_result spawn_fails_def)
next
  case (spawn_error g d errno)
  with assms show ?thesis
    by (simp add: spawn_error_result spawn_fails_def)
next
  case (exited g d chunks code)
  from exited_result [of e r g code "Num d" chunks] exited(4)
  have "unlinked (upload e r) = [file_path g]" by auto
  with assms exited(1-3) show ?thesis by (simp add: spawn_fails_def)
qed

lemma prepare_example: "prepare env_example req_example = Ready file_example (Num 8)"
  using probe_example by (simp add: prepare_def env_example_def req_example_def)

lemma prepare_spawn_error: "prepare env_spawn_error req_example = Ready file_example (Num 8)"
  using probe_example
  by (simp add: prepare_def env_spawn_error_def env_example_def req_example_def)

lemma prepare_time_goes_back:
  "prepare env_time_goes_back req_example = Ready file_example (Num 8)"
  using probe_example
  by (simp add: prepare_def env_time_goes_back_def env_example_def req_example_def)

lemma upload_Ready_spawn_error:
  "prepare e r = Ready f dur \<Longrightarrow> encoder e = SpawnError errno \<Longrightarrow>
   upload e r = on_close e r f (Some errno) (on_error f headers_set)"
  by (simp add: upload_def run_events_def)

lemma upload_Ready_exited:
  "prepare e r = Ready f dur \<Longrightarrow> encoder e = Exited chunks code \<Longrightarrow>
   upload e r = on_close e r f code (foldl (handle e r f dur) headers_set (map Data chunks))"
  by (simp add: upload_def run_events_def)

section \<open>Lemmas on the progress computation\<close>

lemma strict_neq_Num: "strict_neq (Num a) x = (Num a \<noteq> x)"
  by (cases x) simp_all

lemma on_stderr_data_step:
  assumes "match_time s = Some g" and "elapsed g = Num t" and "0 < d"
  shows "on_stderr_data (Num d) s st =
           (if Num (of_int (pct_int t d)) \<noteq> lastPct st
            then res_write (progress_line (pct_int t d)) (st\<lparr>lastPct := Num (of_int (pct_int t d))\<rparr>)
            else st)"
  using assms
  by (simp add: on_stderr_data_def percent_pct_int(1) strict_neq_Num progress_line_def Let_def
      del: String_js.simps)

lemma marker_times_Cons:
  "marker_times (c # cs) =
     (case match_time c of None \<Rightarrow> marker_times cs | Some g \<Rightarrow> elapsed g # marker_times cs)"
  by (simp add: marker_times_def map_filter_simps split: option.splits)

text \<open>
  With a positive duration and marker times that never decrease, the values written
  while chunks arrive increase strictly, starting above the last value written before.
\<close>

lemma run_data_increasing:
  assumes "0 < d"
    and "marker_times chunks = map Num ts" and "sorted ts"
    and "lastPct st = Num (of_int lp)" and "\<forall>t\<in>set ts. lp \<le> pct_int t d"
    and "\<not> ended st"
  shows "\<exists>ps. written (foldl (handle e r f (Num d)) st (map Data chunks)) =
                 written st @ map progress_line ps \<and>
              sorted_wrt (<) ps \<and> (\<forall>p\<in>set ps. lp < p \<and> 0 \<le> p \<and> p \<le> 100)"
  using assms(2-)
proof (induction chunks arbitrary: st lp ts)
  case Nil
  show ?case by (rule exI [of _ "[]"]) simp
next
  case (Cons c cs)
  show ?case
  proof (cases "match_time c")
    case None
    then have same: "on_stderr_data (Num d) c st = st"
      by (simp add: on_stderr_data_def)
    from None Cons.prems(1) have "marker_times cs = map Num ts"
      by (simp add: marker_times_Cons)
    from Cons.IH [OF this Cons.prems(2-)] same show ?thesis by simp
  next
    case (Some g)
    with Cons.prems(1) obtain t ts' where ts: "ts = t # ts'" and t: "elapsed g = Num t"
      and rest: "marker_times cs = map Num ts'"
      by (auto simp: marker_times_Cons)
    let ?p = "pct_int t d"
    from ts Cons.prems(2) have sorted': "sorted ts'" and later: "\<forall>u\<in>set ts'. t \<le> u"
      by simp_all
    from ts Cons.prems(4) have lp: "lp \<le> ?p" by simp
    note step = on_stderr_data_step [OF Some t \<open>0 < d\<close>, of st]
    show ?thesis
    proof (cases "?p = lp")
      case True
      with step Cons.prems(3) have same: "on_stderr_data (Num d) c st = st" by simp
      from ts Cons.prems(4) have "\<forall>u\<in>set ts'. lp \<le> pct_int u d" by simp
      from Cons.IH [OF rest sorted' Cons.prems(3) this Cons.prems(5)] same show ?thesis by simp
    next
      case False
      with lp have less: "lp < ?p" by simp
      let ?st1 = "res_write (progress_line ?p) (st\<lparr>lastPct := Num (of_int ?p)\<rparr>)"
      from False step Cons.prems(3) have st1: "on_stderr_data (Num d) c st = ?st1" by simp
      from Cons.prems(5) have w1: "written ?st1 = written st @ [progress_line ?p]"
        and e1: "\<not> ended ?st1" and l1: "lastPct ?st1 = Num (of_int ?p)"
        by (simp_all add: res_write_def)
      from later have "\<forall>u\<in>set ts'. ?p \<le> pct_int u d"
        by (simp add: pct_int_mono [OF \<open>0 < d\<close>])
      from Cons.IH [OF rest sorted' l1 this e1] obtain ps where ps:
        "written (foldl (handle e r f (Num d)) ?st1 (map Data cs)) = written ?st1 @ map progress_line ps"
        "sorted_wrt (<) ps" "\<forall>p\<in>set ps. ?p < p \<and> 0 \<le> p \<and> p \<le> 100"
        by blast
      from ps less w1 st1 percent_pct_int(2,3) [OF \<open>0 < d\<close>, of t] show ?thesis
        by (intro exI [of _ "?p # ps"]) auto
    qed
  qed
qed

section \<open>What the progress pattern finds\<close>











section \<open>Evaluation of the examples\<close>

lemmas match_defs = match_here_def is_digit_def is_digit_or_dot_def Let_def

lemma match_time_example:
  "match_time ''frame=100 time=00:00:04.00 bitrate=524.3kbits/s'' = Some (''00'', ''00'', ''04.00'')"
  by (simp add: match_defs)

lemma match_time_bare:
  "match_time ''time=00:00:04.00'' = Some (''00'', ''00'', ''04.00'')"
  "match_time ''time=00:00:02.00'' = Some (''00'', ''00'', ''02.00'')"
  "match_time ''time=00:00:06.00'' = Some (''00'', ''00'', ''06.00'')"
  "match_time ''time=00:00:02.90'' = Some (''00'', ''00'', ''02.90'')"
  "match_time ''Press [q] to stop'' = None"
  by (simp_all add: match_defs)

text \<open>The double nearest to 2.9, and the two roundings on the way to its percentage of 10.\<close>

lemma double_2_9:
  "double_of (29 / 10) = Num (6530219459687219 / 2251799813685248)"
  "double_of (6530219459687219 / 2251799813685248) = Num (6530219459687219 / 2251799813685248)"
  using double_of_evalI [of "29 / 10" 1 6530219459687219]
    double_of_dyadic [of 6530219459687219 51]
  by simp_all

lemma div_2_9_by_10:
  "js_div (Num (6530219459687219 / 2251799813685248)) (Num 10) =
     Num (5224175567749775 / 18014398509481984)"
  using double_of_evalI [of "6530219459687219 / 2251799813685248 / 10" "- 2" 5224175567749775]
  by simp

lemma mul_0_29_by_100:
  "js_mul (Num (5224175567749775 / 18014398509481984)) (Num 100) =
     Num (8162774324609023 / 281474976710656)"
  using double_of_evalI [of "5224175567749775 / 18014398509481984 * 100" 4 8162774324609023]
  by simp

lemma floor_numeral_div:
  "\<lfloor>numeral a / numeral b :: rat\<rfloor> = numeral a div numeral b"
  using floor_divide_of_int_eq [of "numeral a" "numeral b", where ?'a = rat] by simp

lemma percent_2_9_of_10:
  "percent (Num (6530219459687219 / 2251799813685248)) (Num 10) = Num 28"
  unfolding percent_def div_2_9_by_10 mul_0_29_by_100
  by (simp add: floor_numeral_div)

lemma elapsed_bare:
  "elapsed (''00'', ''00'', ''04.00'') = Num 4"
  "elapsed (''00'', ''00'', ''02.00'') = Num 2"
  "elapsed (''00'', ''00'', ''06.00'') = Num 6"
  "elapsed (''00'', ''00'', ''02.90'') = Num (6530219459687219 / 2251799813685248)"
  by (simp_all add: elapsed_def parse_defs double_eval double_2_9)

lemma pct_int_bare:
  "pct_int 4 8 = 50" "pct_int 2 8 = 25" "pct_int 6 8 = 75"
  "pct_int (6530219459687219 / 2251799813685248) 10 = 28"
  by (simp_all add: pct_int_def percent_2_9_of_10) (simp_all add: percent_def double_eval)

lemma spec_pct_bare: "spec_pct (29 / 10) 10 = 29"
  by (simp add: spec_pct_def)

lemma show_nat_two_digits:
  "show_nat 25 = ''25''" "show_nat 28 = ''28''" "show_nat 50 = ''50''" "show_nat 75 = ''75''"
  by (simp_all add: show_nat.simps digit_char_def)

lemma progress_line_bare:
  "progress_line 25 = ''progress:25'' @ [CHR 0x0A]"
  "progress_line 28 = ''progress:28'' @ [CHR 0x0A]"
  "progress_line 50 = ''progress:50'' @ [CHR 0x0A]"
  "progress_line 75 = ''progress:75'' @ [CHR 0x0A]"
  by (simp_all add: progress_line_def show_pos_def show_nat_two_digits)

lemma marker_times_steady:
  "marker_times (stderr_chunks (encoder env_steady)) = map Num [2, 4, 4, 6]"
  by (simp add: env_steady_def env_example_def marker_times_def map_filter_simps
      match_time_bare elapsed_bare del: match_time.simps)

lemma download_line_example:
  "download_line env_example req_example file_example =
     ''download:https://example.org/downloads/clip_desq_1700000000000.mp4'' @ [CHR 0x0A]"
  "download_line env_time_goes_back req_example file_example =
     ''download:https://example.org/downloads/clip_desq_1700000000000.mp4'' @ [CHR 0x0A]"
  "download_line env_steady req_example file_example =
     ''download:https://example.org/downloads/clip_desq_1700000000000.mp4'' @ [CHR 0x0A]"
  by (simp_all add: download_line_def publicUrl_def outBase_def encodeURIComponent_def
      encode_char_def uri_unreserved_def req_example_def file_example_def
      env_time_goes_back_def env_steady_def env_example_def show_nat.simps digit_char_def)

lemma prepare_steady: "prepare env_steady req_example = Ready file_example (Num 8)"
  using probe_example
  by (simp add: prepare_def env_steady_def env_example_def req_example_def)

section \<open>Joining a file name onto a directory\<close>

lemma split_on_not_Nil: "split_on sep s \<noteq> []"
  by (induction s) (auto split: list.splits)

lemma split_on_no_sep: "sep \<notin> set s \<Longrightarrow> split_on sep s = [s]"
  by (induction s) auto

lemma split_on_append:
  "split_on sep (a @ sep # b) = split_on sep a @ split_on sep b"
proof (induction a)
  case Nil
  show ?case by simp
next
  case (Cons c cs)
  obtain s ss where "split_on sep cs = s # ss"
    using split_on_not_Nil [of sep cs] by (cases "split_on sep cs") auto
  with Cons show ?case by simp
qed

lemma split_on_segments: "\<forall>s\<in>set (split_on sep x). sep \<notin> set s"
  by (induction x) (auto split: list.splits)

lemma intercalate_snoc:
  "xs \<noteq> [] \<Longrightarrow> intercalate sep (xs @ [y]) = intercalate sep xs @ sep @ y"
  by (induction sep xs rule: intercalate.induct) simp_all

lemma split_on_intercalate:
  "segs \<noteq> [] \<Longrightarrow> \<forall>s\<in>set segs. sep \<notin> set s \<Longrightarrow>
   split_on sep (intercalate [sep] segs) = segs"
proof (induction "[sep]" segs rule: intercalate.induct)
  case 1
  then show ?case by simp
next
  case (2 s)
  then show ?case by (simp add: split_on_no_sep)
next
  case (3 s t ss)
  then show ?case by (simp add: split_on_append split_on_no_sep)
qed

lemma normalize_segs_snoc:
  "t \<noteq> [] \<Longrightarrow> t \<noteq> ''.'' \<Longrightarrow> t \<noteq> ''..'' \<Longrightarrow>
   normalize_segs ab acc (ss @ [t]) = normalize_segs ab acc ss @ [t]"
  by (induction ss arbitrary: acc) (auto split: list.splits)

lemma normalize_segs_plain:
  "\<forall>s\<in>set xs. plain_segment s \<Longrightarrow> normalize_segs ab acc xs = rev acc @ xs"
  by (induction xs arbitrary: acc) (auto simp: plain_segment_def)

text \<open>In an absolute path, what remains after resolving \<open>.\<close> and \<open>..\<close> names entries only.\<close>

lemma normalize_segs_absolute:
  "\<forall>s\<in>set acc. plain_segment s \<Longrightarrow> \<forall>s\<in>set ss. CHR ''/'' \<notin> set s \<Longrightarrow>
   \<forall>s\<in>set (normalize_segs True acc ss). plain_segment s"
proof (induction ss arbitrary: acc)
  case Nil
  then show ?case by simp
next
  case (Cons s ss)
  from Cons.prems(2) have rest: "\<forall>s\<in>set ss. CHR ''/'' \<notin> set s" and s: "CHR ''/'' \<notin> set s"
    by simp_all
  consider "s = [] \<or> s = ''.''" | "s = ''..''" | "s \<noteq> []" "s \<noteq> ''.''" "s \<noteq> ''..''"
    by blast
  then show ?case
  proof cases
    case 1
    with Cons.IH [OF Cons.prems(1) rest] show ?thesis by auto
  next
    case 2
    show ?thesis
    proof (cases acc)
      case Nil
      with 2 Cons.IH [of "[]", OF _ rest] show ?thesis by simp
    next
      case (Cons a as)
      with Cons.prems(1) have "a \<noteq> ''..''" "\<forall>s\<in>set as. plain_segment s"
        by (simp_all add: plain_segment_def)
      with 2 Cons Cons.IH [of as, OF _ rest] show ?thesis by simp
    qed
  next
    case 3
    with s have "plain_segment s" by (simp add: plain_segment_def)
    with Cons.prems(1) have "\<forall>x\<in>set (s # acc). plain_segment x" by simp
    from Cons.IH [OF this rest] 3 show ?thesis by simp
  qed
qed

lemma intercalate_plain_not_Nil:
  "segs \<noteq> [] \<Longrightarrow> \<forall>s\<in>set segs. plain_segment s \<Longrightarrow> intercalate sep segs \<noteq> []"
  by (induction sep segs rule: intercalate.induct) (simp_all add: plain_segment_def)

text \<open>
  Joining a name that is a plain segment onto an absolute, normalized directory appends
  a slash and the name: the result is an entry of that directory.
\<close>

lemma path_join_plain:
  assumes N: "N \<noteq> []" "\<forall>s\<in>set N. plain_segment s" and b: "plain_segment b"
  shows "path_join (CHR ''/'' # intercalate ''/'' N) b =
           CHR ''/'' # intercalate ''/'' N @ ''/'' @ b"
proof -
  let ?p = "CHR ''/'' # intercalate ''/'' N @ CHR ''/'' # b"
  from b have b': "b \<noteq> []" "CHR ''/'' \<notin> set b" by (simp_all add: plain_segment_def)
  from N have noslash: "\<forall>s\<in>set N. CHR ''/'' \<notin> set s" by (simp add: plain_segment_def)
  from b' have "last b \<noteq> CHR ''/''"
    using last_in_set [of b] by metis
  with b' have last: "last ?p \<noteq> CHR ''/''" by simp
  have sp: "split_on CHR ''/'' (intercalate ''/'' N @ CHR ''/'' # b) = N @ [b]"
    using split_on_append [of "CHR ''/''" "intercalate ''/'' N" b]
      split_on_intercalate [OF N(1) noslash] b'
    by (simp add: split_on_no_sep)
  from N b have "\<forall>s\<in>set (N @ [b]). plain_segment s" by simp
  then have segs: "normalize_segs True [] (N @ [b]) = N @ [b]"
    by (simp add: normalize_segs_plain)
  have body: "intercalate ''/'' (N @ [b]) = intercalate ''/'' N @ ''/'' @ b"
    using N(1) by (rule intercalate_snoc)
  from b' have "normalize ?p = CHR ''/'' # intercalate ''/'' N @ ''/'' @ b"
    using last by (simp add: normalize_def sp segs body Let_def)
  with b' show ?thesis by (simp add: path_join_def)
qed

text \<open>The downloads directory under an absolute \<open>__dirname\<close>.\<close>

lemma downloadsDir_absolute:
  assumes "dirname e \<noteq> []" and "hd (dirname e) = CHR ''/''"
  shows "\<exists>N. N \<noteq> [] \<and> (\<forall>s\<in>set N. plain_segment s) \<and>
             downloadsDir e = CHR ''/'' # intercalate ''/'' N"
proof -
  let ?p = "dirname e @ CHR ''/'' # ''downloads''"
  let ?M = "normalize_segs True [] (split_on CHR ''/'' (dirname e))"
  have dl: "plain_segment ''downloads''" by (simp add: plain_segment_def)
  have "split_on CHR ''/'' ?p = split_on CHR ''/'' (dirname e) @ [''downloads'']"
    by (simp add: split_on_append split_on_no_sep)
  then have segs: "normalize_segs True [] (split_on CHR ''/'' ?p) = ?M @ [''downloads'']"
    by (simp add: normalize_segs_snoc)
  have plain: "\<forall>s\<in>set (?M @ [''downloads'']). plain_segment s"
    using normalize_segs_absolute [of "[]" "split_on CHR ''/'' (dirname e)"]
      split_on_segments [of "CHR ''/''" "dirname e"] dl
    by simp
  then have body: "intercalate ''/'' (?M @ [''downloads'']) \<noteq> []"
    by (intro intercalate_plain_not_Nil) simp_all
  from assms have "hd ?p = CHR ''/''" by (cases "dirname e") simp_all
  then have "normalize ?p = CHR ''/'' # intercalate ''/'' (?M @ [''downloads''])"
    using body by (simp add: normalize_def segs Let_def)
  with assms(1) have "downloadsDir e = CHR ''/'' # intercalate ''/'' (?M @ [''downloads''])"
    by (simp add: downloadsDir_def path_join_def)
  with plain show ?thesis
    by (intro exI [of _ "?M @ [''downloads'']"]) simp
qed

section \<open>The name of the output file\<close>

lemma origName_suffix:
  "\<exists>ext. name = origName name @ ext \<and>
         (ext = [] \<or> (\<exists>x. ext = CHR ''.'' # x \<and> x \<noteq> [] \<and> CHR ''.'' \<notin> set x))"
proof (induction name)
  case Nil
  show ?case by simp
next
  case (Cons c cs)
  show ?case
  proof (cases "c = CHR ''.'' \<and> cs \<noteq> [] \<and> CHR ''.'' \<notin> set cs")
    case True
    then show ?thesis by (intro exI [of _ "c # cs"]) simp
  next
    case False
    from Cons.IH obtain ext where "cs = origName cs @ ext"
      "ext = [] \<or> (\<exists>x. ext = CHR ''.'' # x \<and> x \<noteq> [] \<and> CHR ''.'' \<notin> set x)"
      by blast
    with False show ?thesis by (intro exI [of _ ext]) auto
  qed
qed

lemma set_origName: "set (origName name) \<subseteq> set name"
  using origName_suffix [of name] by (metis set_append sup_ge1)

lemma basename_no_separator: "\<forall>c\<in>set (basename name). \<not> is_separator c"
  by (auto simp: basename_def Let_def dest: set_takeWhileD)

lemma digit_char_digit: "digit_char d \<in> set ''0123456789''"
proof -
  have "d mod 10 < length ''0123456789''" by simp
  then show ?thesis unfolding digit_char_def by (rule nth_mem)
qed

lemma show_nat_digits: "set (show_nat n) \<subseteq> set ''0123456789''"
proof (induction n rule: show_nat.induct)
  case (1 n)
  show ?case
  proof (cases "n < 10")
    case True
    then show ?thesis
      using digit_char_digit [of n] by (subst show_nat.simps) simp
  next
    case False
    with 1 digit_char_digit [of "n mod 10"] show ?thesis
      by (subst show_nat.simps) simp
  qed
qed

lemma outBase_plain:
  assumes "CHR ''/'' \<notin> set (originalname f)"
  shows "plain_segment (outBase e f)" and "CHR ''/'' \<notin> set (outBase e f)"
proof -
  from assms set_origName [of "originalname f"] have "CHR ''/'' \<notin> set (origName (originalname f))"
    by blast
  moreover have "CHR ''/'' \<notin> set (show_nat (now e))"
    using show_nat_digits [of "now e"] by auto
  ultimately show slash: "CHR ''/'' \<notin> set (outBase e f)"
    by (simp add: outBase_def)
  have "length (outBase e f) \<ge> 10" by (simp add: outBase_def)
  then have "outBase e f \<noteq> []" "outBase e f \<noteq> ''.''" "outBase e f \<noteq> ''..''"
    by auto
  with slash show "plain_segment (outBase e f)" by (simp add: plain_segment_def)
qed

lemma downloadsDir_example: "downloadsDir env_example = ''/app/downloads''"
  by (simp add: downloadsDir_def path_join_def normalize_def env_example_def Let_def)

section \<open>Terminal outcome of a job\<close>

text \<open>
  Claim C1. Every job writes exactly one terminal outcome, either the download line
  followed by \<open>status:done\<close> or the single line \<open>status:error\<close>, after progress lines
  only, and the response is ended: the outcome is the last thing written. The runs of
  the encoder are those that end (\<open>encoder_run\<close>); the property holds for every request,
  so in particular for the valid parameters and the well-formed file of the claim.
\<close>

theorem upload_one_terminal_outcome:
  "ended (upload e r) \<and>
   (\<exists>ps. list_all is_progress_line ps \<and>
      (written (upload e r) = ps @ [status_error] \<or>
       (\<exists>f. req_file r = Some f \<and>
            written (upload e r) = ps @ [download_line e r f, status_done]))) \<and>
   length (filter is_status_line (written (upload e r))) = 1"
proof -
  from upload_outcome [of e r] obtain ps where ps:
    "list_all is_progress_line ps" "ended (upload e r)"
    "written (upload e r) = ps @ [status_error] \<or>
       (\<exists>f. req_file r = Some f \<and> written (upload e r) = ps @ [download_line e r f, status_done])"
    by (auto split: if_splits)
  from ps(3) have "length (filter is_status_line (written (upload e r))) = 1"
    by (auto simp: filter_status_progress [OF ps(1)] status_lines_distinct)
  with ps show ?thesis by blast
qed

theorem upload_one_terminal_outcome_witness:
  "ended (upload env_example req_example) \<and>
   length (filter is_status_line (written (upload env_example req_example))) = 1 \<and>
   written (upload env_example req_example) =
     [''progress:50'' @ [CHR 0x0A],
      ''download:https://example.org/downloads/clip_desq_1700000000000.mp4'' @ [CHR 0x0A],
      ''status:done'' @ [CHR 0x0A]]"
proof -
  have d: "(0::rat) < 8" by simp
  note step = on_stderr_data_step [OF match_time_example elapsed_bare(1) d, unfolded pct_int_bare]
  have enc: "encoder env_example =
      Exited [''frame=100 time=00:00:04.00 bitrate=524.3kbits/s''] (Some 0)"
    by (simp add: env_example_def)
  have run: "foldl (handle env_example req_example file_example (Num 8)) headers_set
          (map Data [''frame=100 time=00:00:04.00 bitrate=524.3kbits/s'']) =
        headers_set\<lparr>lastPct := Num 50, written := [progress_line 50]\<rparr>"
    by (simp add: step res_write_def headers_set_simps del: match_time.simps)
  have w: "written (upload env_example req_example) =
     [''progress:50'' @ [CHR 0x0A],
      ''download:https://example.org/downloads/clip_desq_1700000000000.mp4'' @ [CHR 0x0A],
      ''status:done'' @ [CHR 0x0A]]"
    unfolding upload_Ready_exited [OF prepare_example enc] run
    by (simp add: on_close_def response_defs headers_set_simps progress_line_bare
        download_line_example status_done_def)
  from upload_one_terminal_outcome [of env_example req_example] w show ?thesis
    by blast
qed

section \<open>The sequence of progress values\<close>

text \<open>
  Claim C2, amended. When the elapsed times the handler computes for the markers in the
  encoder's chunks are numbers and never decrease, the progress lines written for the
  job carry a strictly increasing sequence of integers in \<open>[0, 100]\<close>: non-decreasing,
  pairwise distinct, no value written twice. The times and the percentages are the
  doubles the code computes.
\<close>

theorem progress_increasing:
  assumes "marker_times (stderr_chunks (encoder e)) = map Num ts" and "sorted ts"
  shows "\<exists>ps. filter is_progress_line (written (upload e r)) = map progress_line ps \<and>
              sorted_wrt (<) ps \<and> (\<forall>p\<in>set ps. 0 \<le> p \<and> p \<le> 100)"
proof -
  have none: "filter is_progress_line (written (upload e r)) = [] \<Longrightarrow> ?thesis"
    by (intro exI [of _ "[]"]) simp
  show ?thesis
  proof (cases rule: upload_cases [of e r])
    case (threw err)
    then show ?thesis
      by (intro none) (simp add: catch_block_result status_lines_distinct)
  next
    case (spawn_error f d errno)
    then show ?thesis
      by (intro none) (simp add: spawn_error_result status_lines_distinct)
  next
    case (exited f d chunks code)
    let ?run = "foldl (handle e r f (Num d)) headers_set (map Data chunks)"
    from run_data [of e r f "Num d" headers_set chunks]
    have live: "\<not> ended ?run" by (auto simp: headers_set_simps)
    have up: "written (upload e r) =
        written ?run @ (if code = Some 0 then [download_line e r f, status_done] else [status_error])"
      by (simp add: exited(4) on_close_result [OF live])
    show ?thesis
    proof (cases "0 < d")
      case False
      then have "?run = headers_set"
        by (intro run_data_no_duration) simp
      with up show ?thesis
        by (intro none) (simp add: headers_set_simps status_lines_distinct)
    next
      case True
      have "\<forall>t\<in>set ts. - 1 \<le> pct_int t d"
        using percent_pct_int(2) [OF True] by (simp add: order_trans [of "- 1" 0])
      with assms exited(3)
        run_data_increasing [of d chunks ts headers_set "- 1" e r f, OF True]
      obtain ps where ps: "written ?run = map progress_line ps" "sorted_wrt (<) ps"
        "\<forall>p\<in>set ps. 0 \<le> p \<and> p \<le> 100"
        by (auto simp: headers_set_simps)
      from up ps(1) have "filter is_progress_line (written (upload e r)) = map progress_line ps"
        by (simp add: filter_progress_lines status_lines_distinct)
      with ps show ?thesis by blast
    qed
  qed
qed

theorem progress_increasing_witness:
  "marker_times (stderr_chunks (encoder env_steady)) = map Num [2, 4, 4, 6] \<and>
   sorted [2, 4, 4, 6 :: rat] \<and>
   (\<exists>ps. filter is_progress_line (written (upload env_steady req_example)) = map progress_line ps \<and>
         sorted_wrt (<) ps) \<and>
   filter is_progress_line (written (upload env_steady req_example)) =
     [''progress:25'' @ [CHR 0x0A], ''progress:50'' @ [CHR 0x0A], ''progress:75'' @ [CHR 0x0A]]"
proof -
  have s: "sorted [2, 4, 4, 6 :: rat]" by simp
  have d: "(0::rat) < 8" by simp
  note step2 = on_stderr_data_step [OF match_time_bare(2) elapsed_bare(2) d, unfolded pct_int_bare]
  note step4 = on_stderr_data_step [OF match_time_bare(1) elapsed_bare(1) d, unfolded pct_int_bare]
  note step6 = on_stderr_data_step [OF match_time_bare(3) elapsed_bare(3) d, unfolded pct_int_bare]
  have skip: "on_stderr_data (Num 8) ''Press [q] to stop'' st = st" for st
    by (simp add: on_stderr_data_def match_time_bare(5) del: match_time.simps)
  have enc: "encoder env_steady =
      Exited [''time=00:00:02.00'', ''time=00:00:04.00'', ''Press [q] to stop'',
              ''time=00:00:04.00'', ''time=00:00:06.00''] (Some 0)"
    by (simp add: env_steady_def)
  have run: "foldl (handle env_steady req_example file_example (Num 8)) headers_set
          (map Data [''time=00:00:02.00'', ''time=00:00:04.00'', ''Press [q] to stop'',
                     ''time=00:00:04.00'', ''time=00:00:06.00'']) =
        headers_set\<lparr>lastPct := Num 75,
          written := [progress_line 25, progress_line 50, progress_line 75]\<rparr>"
    by (simp add: step2 step4 step6 skip res_write_def headers_set_simps)
  have w: "filter is_progress_line (written (upload env_steady req_example)) =
     [''progress:25'' @ [CHR 0x0A], ''progress:50'' @ [CHR 0x0A], ''progress:75'' @ [CHR 0x0A]]"
    unfolding upload_Ready_exited [OF prepare_steady enc] run
    by (simp add: on_close_def response_defs headers_set_simps progress_line_bare
        download_line_example status_done_def is_progress_line_def)
  from progress_increasing [OF marker_times_steady s, of req_example] marker_times_steady s w
  show ?thesis by blast
qed

text \<open>
  Why the marker times must be numbers: the class \<open>[\d.]+\<close> also accepts a lone dot,
  which \<open>parseFloat\<close> does not read; the percentage is then \<open>NaN\<close>, which differs from
  every last value, and is written.
\<close>

lemma progress_NaN_example:
  "written (on_stderr_data (Num 8) ''time=0:0:.'' headers_set) = [''progress:NaN'' @ [CHR 0x0A]]"
  by (simp add: on_stderr_data_def match_here_def elapsed_def percent_def parse_defs double_eval
      res_write_def headers_set_simps)

text \<open>
  The claim as stated (for every sequence of chunks) fails: the handler only compares a
  value with the last one written, so markers at 4 s, 2 s and 4 s of an 8 s input give
  50, 25 and 50 again.
\<close>

theorem progress_repeats_when_time_goes_back:
  "written (upload env_time_goes_back req_example) =
     [''progress:50'' @ [CHR 0x0A], ''progress:25'' @ [CHR 0x0A], ''progress:50'' @ [CHR 0x0A],
      ''download:https://example.org/downloads/clip_desq_1700000000000.mp4'' @ [CHR 0x0A],
      ''status:done'' @ [CHR 0x0A]]"
proof -
  have d: "(0::rat) < 8" by simp
  note step4 = on_stderr_data_step [OF match_time_bare(1) elapsed_bare(1) d, unfolded pct_int_bare]
  note step2 = on_stderr_data_step [OF match_time_bare(2) elapsed_bare(2) d, unfolded pct_int_bare]
  have enc: "encoder env_time_goes_back =
      Exited [''time=00:00:04.00'', ''time=00:00:02.00'', ''time=00:00:04.00''] (Some 0)"
    by (simp add: env_time_goes_back_def)
  have run: "foldl (handle env_time_goes_back req_example file_example (Num 8)) headers_set
          (map Data [''time=00:00:04.00'', ''time=00:00:02.00'', ''time=00:00:04.00'']) =
        headers_set\<lparr>lastPct := Num 50,
          written := [progress_line 50, progress_line 25, progress_line 50]\<rparr>"
    by (simp add: step4 step2 res_write_def headers_set_simps)
  show ?thesis
    unfolding upload_Ready_exited [OF prepare_time_goes_back enc] run
    by (simp add: on_close_def response_defs headers_set_simps progress_line_bare
        download_line_example status_done_def)
qed

section \<open>Request parameters\<close>

text \<open>
  What the three parameter lines do with a field that is absent or empty, and with a
  field that is present: the factor and the frame rate have a fallback for a field that
  is not a number (\<open>Math.max\<close> keeps a number at \<open>1\<close> or above, \<open>|| null\<close> turns
  \<open>NaN\<close> and \<open>0\<close> into "preserve"); the bitrate has one for the absent or empty field
  only.
\<close>

lemma request_parameters:
  "(body_factor r = None \<or> body_factor r = Some [] \<longrightarrow> factor r = Num 1) \<and>
   (\<forall>s q. body_factor r = Some s \<and> s \<noteq> [] \<and> parseFloat s = Num q \<longrightarrow> factor r = Num (max 1 q)) \<and>
   (body_fps r = None \<or> body_fps r = Some [] \<or> body_fps r = Some ''copy'' \<longrightarrow> fps r = None) \<and>
   (\<forall>s. body_fps r = Some s \<and> (parseInt s = NaN \<or> parseInt s = Num 0) \<longrightarrow> fps r = None) \<and>
   (\<forall>s. body_fps r = Some s \<and> s \<noteq> [] \<and> s \<noteq> ''copy'' \<and> truthy (parseInt s) \<longrightarrow>
        fps r = Some (parseInt s)) \<and>
   (body_bitrate r = None \<or> body_bitrate r = Some [] \<longrightarrow> bitrate r = Num 8000000) \<and>
   (\<forall>s. body_bitrate r = Some s \<and> s \<noteq> [] \<longrightarrow> bitrate r = parseInt s)"
proof -
  have one: "parseFloat ''1'' = Num 1" by (simp add: parse_defs double_eval)
  have zero: "parseInt ''0'' = Num 0" by (simp add: parse_defs double_eval)
  have dflt: "parseInt ''8000000'' = Num 8000000" by (simp add: parse_defs double_eval)
  have f1: "body_factor r = None \<or> body_factor r = Some [] \<longrightarrow> factor r = Num 1"
    by (auto simp: factor_def or_default_def one)
  have f2: "\<forall>s q. body_factor r = Some s \<and> s \<noteq> [] \<and> parseFloat s = Num q \<longrightarrow>
              factor r = Num (max 1 q)"
    by (auto simp: factor_def or_default_def max_def)
  have p1: "body_fps r = None \<or> body_fps r = Some [] \<or> body_fps r = Some ''copy'' \<longrightarrow> fps r = None"
    by (auto simp: fps_def or_default_def zero)
  have p2: "\<forall>s. body_fps r = Some s \<and> (parseInt s = NaN \<or> parseInt s = Num 0) \<longrightarrow> fps r = None"
    by (auto simp: fps_def or_default_def zero)
  have p3: "\<forall>s. body_fps r = Some s \<and> s \<noteq> [] \<and> s \<noteq> ''copy'' \<and> truthy (parseInt s) \<longrightarrow>
        fps r = Some (parseInt s)"
    by (auto simp: fps_def or_default_def)
  have b1: "body_bitrate r = None \<or> body_bitrate r = Some [] \<longrightarrow> bitrate r = Num 8000000"
    by (auto simp: bitrate_def or_default_def dflt)
  have b2: "\<forall>s. body_bitrate r = Some s \<and> s \<noteq> [] \<longrightarrow> bitrate r = parseInt s"
    by (auto simp: bitrate_def or_default_def)
  from f1 f2 p1 p2 p3 b1 b2 show ?thesis by blast
qed

text \<open>
  Claim C3 says that the bitrate defaults to 8,000,000 when the \<open>bitrate\<close> field is
  missing or invalid. The code does so for a missing field only. For the field \<open>high\<close>,
  which is no number, the bitrate is \<open>NaN\<close>, not 8,000,000, and the encoder is started
  with the arguments \<open>-b:v NaN\<close>; the same text in the \<open>fps\<close> field, one line above in
  the code, does fall back to "preserve", and no \<open>-r\<close> argument is passed.
\<close>

theorem invalid_bitrate_is_not_defaulted:
  "body_bitrate req_bad_bitrate = Some ''high'' \<and>
   bitrate req_bad_bitrate = NaN \<and>
   bitrate req_bad_bitrate \<noteq> Num 8000000 \<and>
   take 2 (drop 5 (args env_example req_bad_bitrate file_example)) = [''-b:v'', ''NaN''] \<and>
   fps (req_example\<lparr>body_fps := Some ''high''\<rparr>) = None"
  by (simp add: req_bad_bitrate_def req_example_def bitrate_def fps_def args_def or_default_def
      parse_defs double_eval)

section \<open>Deletion of the temporary upload\<close>

text \<open>
  Claim C4, amended. When a file was uploaded, every path that ends the job hands the
  temporary file, and no other path, to \<open>fs.unlink\<close> at least once, so that afterwards the
  temporary file is gone and every other file (the produced output among them) is on
  disk exactly when it was before; on success, on a non-zero exit and on a caught
  exception the deletion is requested exactly once.
\<close>

theorem temp_file_cleanup:
  assumes "req_file r = Some f"
  shows "set (unlinked (upload e r)) = {file_path f} \<and>
         file_path f \<notin> disk_after disk (upload e r) \<and>
         (\<forall>p. p \<noteq> file_path f \<longrightarrow> (p \<in> disk_after disk (upload e r)) = (p \<in> disk)) \<and>
         (\<not> spawn_fails e r \<longrightarrow> unlinked (upload e r) = [file_path f])"
  by (simp add: unlinked_upload [OF assms] disk_after_def)

theorem temp_file_cleanup_witness:
  "req_file req_example = Some file_example \<and>
   \<not> spawn_fails env_example req_example \<and>
   unlinked (upload env_example req_example) = [file_path file_example] \<and>
   file_path file_example \<notin> disk_after {file_path file_example, outPath env_example file_example}
      (upload env_example req_example)"
proof -
  have h: "req_file req_example = Some file_example"
    by (simp add: req_example_def)
  have n: "\<not> spawn_fails env_example req_example"
    by (simp add: spawn_fails_def prepare_example) (simp add: env_example_def)
  from temp_file_cleanup [OF h, of env_example] h n show ?thesis
    by simp
qed

text \<open>
  The claim as stated (exactly once on every path) fails when the encoder cannot be
  started: the \<open>error\<close> handler and then the \<open>close\<close> handler both request the deletion.
\<close>

theorem spawn_error_unlinks_twice:
  "spawn_fails env_spawn_error req_example \<and>
   unlinked (upload env_spawn_error req_example) =
     [''/tmp/desq_uploads/3f9a'', ''/tmp/desq_uploads/3f9a'']"
proof -
  have "encoder env_spawn_error = SpawnError (- 2)"
    by (simp add: env_spawn_error_def)
  from upload_Ready_spawn_error [OF prepare_spawn_error this] show ?thesis
    by (simp add: spawn_error_result spawn_fails_def prepare_spawn_error file_example_def)
       (simp add: env_spawn_error_def)
qed

section \<open>The duration prober\<close>

text \<open>
  Claim C5, amended. \<open>probeDuration\<close> always resolves, with a finite number: \<open>0\<close>
  when the tool cannot be started and when its trimmed output does not parse to a finite
  number, and the parsed number otherwise, whatever the exit code.
\<close>

theorem probeDuration_resolves:
  "(\<exists>q. probeDuration pr = Some (Num q)) \<and>
   (pr = ProbeSpawnError \<longrightarrow> probeDuration pr = Some (Num 0)) \<and>
   (\<forall>chunks code. pr = ProbeExited chunks code \<longrightarrow>
      (\<not> isFinite (parseFloat (trim (concat chunks))) \<longrightarrow> probeDuration pr = Some (Num 0)) \<and>
      (isFinite (parseFloat (trim (concat chunks))) \<longrightarrow>
         probeDuration pr = Some (parseFloat (trim (concat chunks)))))"
  using probeDuration_Num [of pr] by (auto simp: probeDuration_events)

theorem probeDuration_resolves_witness:
  "\<not> isFinite (parseFloat (trim (concat [''N/A'' @ [CHR 0x0A]]))) \<and>
   probeDuration (ProbeExited [''N/A'' @ [CHR 0x0A]] (Some 1)) = Some (Num 0) \<and>
   isFinite (parseFloat (trim (concat [''8.000000'' @ [CHR 0x0A]]))) \<and>
   probeDuration (ProbeExited [''8.000000'' @ [CHR 0x0A]] (Some 0)) =
     Some (parseFloat (trim (concat [''8.000000'' @ [CHR 0x0A]])))"
proof -
  have a: "\<not> isFinite (parseFloat (trim (concat [''N/A'' @ [CHR 0x0A]])))"
    by (simp add: parse_defs)
  have b: "isFinite (parseFloat (trim (concat [''8.000000'' @ [CHR 0x0A]])))"
    by (simp add: parse_defs double_eval)
  from probeDuration_resolves [of "ProbeExited [''N/A'' @ [CHR 0x0A]] (Some 1)"] a
  have c: "probeDuration (ProbeExited [''N/A'' @ [CHR 0x0A]] (Some 1)) = Some (Num 0)"
    by blast
  from probeDuration_resolves [of "ProbeExited [''8.000000'' @ [CHR 0x0A]] (Some 0)"] b
  have d: "probeDuration (ProbeExited [''8.000000'' @ [CHR 0x0A]] (Some 0)) =
     Some (parseFloat (trim (concat [''8.000000'' @ [CHR 0x0A]])))"
    by blast
  from a b c d show ?thesis by blast
qed

text \<open>
  The claim as stated fails twice: a negative number printed by the tool is resolved as
  it is, and a number printed by a tool that then exits with a non-zero code is resolved
  too, since the \<open>close\<close> handler does not look at the code.
\<close>

theorem probeDuration_negative_or_failed_exit:
  "probeDuration (ProbeExited [''-3.5'' @ [CHR 0x0A]] (Some 0)) = Some (Num (- 7 / 2)) \<and>
   probeDuration (ProbeExited [''12.5'' @ [CHR 0x0A]] (Some 1)) = Some (Num (25 / 2))"
  by (simp add: probeDuration_def resolve_def parse_defs double_eval)

section \<open>The progress translator\<close>




section \<open>Unknown duration\<close>

text \<open>
  Claim C8. When the probed duration is \<open>0\<close>, or the output of the probing tool does
  not parse, no progress line is written whatever the encoder prints, and the terminal
  outcome is still written and the response ended.
\<close>

theorem no_progress_without_duration:
  assumes "probeDuration (probe e) = Some (Num 0) \<or>
           (\<exists>chunks code. probe e = ProbeExited chunks code \<and>
                          parseFloat (trim (concat chunks)) = NaN)"
  shows "filter is_progress_line (written (upload e r)) = [] \<and> ended (upload e r) \<and>
         (written (upload e r) = [status_error] \<or>
          (\<exists>f. req_file r = Some f \<and> written (upload e r) = [download_line e r f, status_done]))"
proof -
  from assms have zero: "probeDuration (probe e) = Some (Num 0)"
    by (auto simp: probeDuration_events)
  have shape: "ended (upload e r) \<and>
         (written (upload e r) = [status_error] \<or>
          (\<exists>f. req_file r = Some f \<and> written (upload e r) = [download_line e r f, status_done]))"
  proof (cases rule: upload_cases [of e r])
    case (threw err)
    then show ?thesis by (simp add: catch_block_result)
  next
    case (spawn_error f d errno)
    then show ?thesis by (simp add: spawn_error_result)
  next
    case (exited f d chunks code)
    with zero have "d = 0"
      by (auto simp: prepare_def split: option.splits if_splits)
    then have "foldl (handle e r f (Num d)) headers_set (map Data chunks) = headers_set"
      by (intro run_data_no_duration) simp
    with exited show ?thesis
      by (simp add: on_close_result headers_set_simps)
  qed
  then have "filter is_progress_line (written (upload e r)) = []"
    by (auto simp: status_lines_distinct)
  with shape show ?thesis by simp
qed

theorem no_progress_without_duration_witness:
  "(\<exists>chunks code. probe env_unknown_duration = ProbeExited chunks code \<and>
                   parseFloat (trim (concat chunks)) = NaN) \<and>
   filter is_progress_line (written (upload env_unknown_duration req_example)) = [] \<and>
   ended (upload env_unknown_duration req_example)"
proof -
  have "parseFloat (trim (concat [''N/A'' @ [CHR 0x0A]])) = NaN"
    by (simp add: parse_defs)
  then have h: "\<exists>chunks code. probe env_unknown_duration = ProbeExited chunks code \<and>
                   parseFloat (trim (concat chunks)) = NaN"
    by (simp add: env_unknown_duration_def)
  with no_progress_without_duration [of env_unknown_duration req_example] show ?thesis
    by blast
qed

section \<open>Status code and headers\<close>

text \<open>
  Claim C9. Every response of the handler carries status 200 (the handler never sets
  another), the content type \<open>text/plain\<close> and chunked transfer encoding; when the job
  does not succeed (exception, spawn error, exit code other than \<open>0\<close>) this is so as
  well, and the failure shows only as the last body line \<open>status:error\<close>.
\<close>

theorem upload_status_200:
  "statusCode (upload e r) = 200 \<and>
   headers (upload e r) ''Content-Type'' = Some ''text/plain; charset=utf-8'' \<and>
   headers (upload e r) ''Transfer-Encoding'' = Some ''chunked'' \<and>
   (\<not> succeeds e r \<longrightarrow> written (upload e r) \<noteq> [] \<and> last (written (upload e r)) = status_error)"
proof -
  from upload_outcome [of e r] have
    "\<not> succeeds e r \<longrightarrow> written (upload e r) \<noteq> [] \<and> last (written (upload e r)) = status_error"
    by auto
  then show ?thesis
    using statusCode_upload [of e r] by (simp add: headers_set_simps)
qed

theorem upload_status_200_witness:
  "\<not> succeeds env_spawn_error req_example \<and>
   statusCode (upload env_spawn_error req_example) = 200 \<and>
   last (written (upload env_spawn_error req_example)) = status_error"
proof -
  have "\<not> succeeds env_spawn_error req_example"
    by (simp add: succeeds_def prepare_spawn_error) (simp add: env_spawn_error_def)
  then show ?thesis
    using upload_status_200 [of env_spawn_error req_example] by simp
qed

section \<open>The output path\<close>

text \<open>
  Claim C10, amended. The handler itself changes the file name it reads in one way
  only: the final extension (the last dot with what follows it, when something follows)
  is cut off. But the name it reads is the base name the upload middleware kept of the
  client's file name, with no path separator in it. So the output file name
  \<open><base>_desq_<timestamp>.mp4\<close> contains no slash, and under an absolute \<open>__dirname\<close>
  the output path is the downloads directory, a slash and that name: an entry of the
  downloads directory, whatever file name the client sent.
\<close>

theorem output_path_in_downloads:
  assumes "dirname e \<noteq> []" and "hd (dirname e) = CHR ''/''"
    and "originalname f = basename client_name"
  shows "(\<exists>ext. originalname f = origName (originalname f) @ ext \<and>
            (ext = [] \<or> (\<exists>x. ext = CHR ''.'' # x \<and> x \<noteq> [] \<and> CHR ''.'' \<notin> set x))) \<and>
         CHR ''/'' \<notin> set (outBase e f) \<and>
         outPath e f = downloadsDir e @ ''/'' @ outBase e f"
proof -
  from basename_no_separator [of client_name] assms(3)
  have "CHR ''/'' \<notin> set (originalname f)"
    by (auto simp: is_separator_def)
  note base = outBase_plain [OF this, of e]
  from downloadsDir_absolute [OF assms(1,2)] obtain N where
    N: "N \<noteq> []" "\<forall>s\<in>set N. plain_segment s" "downloadsDir e = CHR ''/'' # intercalate ''/'' N"
    by blast
  from path_join_plain [OF N(1,2) base(1)]
  have "outPath e f = downloadsDir e @ ''/'' @ outBase e f"
    by (simp add: outPath_def N(3))
  with base(2) origName_suffix [of "originalname f"] show ?thesis by blast
qed

theorem output_path_in_downloads_witness:
  "dirname env_example = ''/app'' \<and>
   originalname (received_file ''/tmp/desq_uploads/77c0'' ''/home/me/videos/clip.final.mov'') =
     ''clip.final.mov'' \<and>
   outBase env_example (received_file ''/tmp/desq_uploads/77c0'' ''/home/me/videos/clip.final.mov'') =
     ''clip.final_desq_1700000000000.mp4'' \<and>
   outPath env_example (received_file ''/tmp/desq_uploads/77c0'' ''/home/me/videos/clip.final.mov'') =
     ''/app/downloads/clip.final_desq_1700000000000.mp4''"
proof -
  let ?f = "received_file ''/tmp/desq_uploads/77c0'' ''/home/me/videos/clip.final.mov''"
  have dir: "dirname env_example = ''/app''" by (simp add: env_example_def)
  have name: "originalname ?f = ''clip.final.mov''"
    by (simp add: received_file_def basename_def is_separator_def)
  have base: "outBase env_example ?f = ''clip.final_desq_1700000000000.mp4''"
    by (simp add: outBase_def name env_example_def show_nat.simps digit_char_def)
  have "outPath env_example ?f = downloadsDir env_example @ ''/'' @ outBase env_example ?f"
    using output_path_in_downloads [of env_example ?f "''/home/me/videos/clip.final.mov''"]
    by (simp add: dir received_file_def)
  then have "outPath env_example ?f = ''/app/downloads/clip.final_desq_1700000000000.mp4''"
    by (simp add: base downloadsDir_example)
  with dir name base show ?thesis by simp
qed

text \<open>
  The claim as stated fails: path separators are not preserved, and an adversarial name
  does not leave the downloads directory. Of the client's file name
  \<open>../../etc/motd.txt\<close> the handler reads \<open>motd.txt\<close>, and the output path is
  \<open>/app/downloads/motd_desq_1700000000000.mp4\<close>.
\<close>

theorem traversal_name_stays_in_downloads:
  "originalname (received_file ''/tmp/desq_uploads/77c0'' ''../../etc/motd.txt'') = ''motd.txt'' \<and>
   outBase env_example (received_file ''/tmp/desq_uploads/77c0'' ''../../etc/motd.txt'') =
     ''motd_desq_1700000000000.mp4'' \<and>
   outPath env_example (received_file ''/tmp/desq_uploads/77c0'' ''../../etc/motd.txt'') =
     ''/app/downloads/motd_desq_1700000000000.mp4''"
proof -
  let ?f = "received_file ''/tmp/desq_uploads/77c0'' ''../../etc/motd.txt''"
  have name: "originalname ?f = ''motd.txt''"
    by (simp add: received_file_def basename_def is_separator_def)
  have base: "outBase env_example ?f = ''motd_desq_1700000000000.mp4''"
    by (simp add: outBase_def name env_example_def show_nat.simps digit_char_def)
  have "outPath env_example ?f = ''/app/downloads/motd_desq_1700000000000.mp4''"
    unfolding outPath_def base downloadsDir_example
    by (simp add: path_join_def normalize_def Let_def)
  with name base show ?thesis by simp
qed

end
